theory Spec2Isabelle
  imports Complex_Main "HOL-Library.Word"
begin

section \<open>Byte buffers\<close>

text \<open>
  A Node \<open>Buffer\<close> is a list of bytes. \<open>Buffer.alloc n\<close> is \<open>n\<close> zero bytes,
  \<open>Buffer.concat\<close> is list concatenation, and \<open>buf.slice(start, end)\<close> counts a
  negative index from the end of the buffer and clamps both indices to the buffer.
\<close>

type_synonym byte = "8 word"
type_synonym buffer = "byte list"

definition alloc :: "nat \<Rightarrow> buffer" where
  "alloc n = replicate n 0"

definition slice_index :: "nat \<Rightarrow> int \<Rightarrow> nat" where
  "slice_index n i = (if i < 0 then nat (max 0 (int n + i)) else min (nat i) n)"

definition slice :: "buffer \<Rightarrow> int \<Rightarrow> int \<Rightarrow> buffer" where
  "slice b start stop =
     (let s = slice_index (length b) start; e = slice_index (length b) stop
      in take (e - s) (drop s b))"

definition slice_from :: "buffer \<Rightarrow> int \<Rightarrow> buffer" where
  "slice_from b start = slice b start (int (length b))"

section \<open>Contracts: signature marshalling\<close>

text \<open>
  \<^verbatim>\<open>
  private solidityFormatSignatures(signatures: Buffer[]) {
    const paddedSignatures = signatures.map(currentSignature => {
      const v = currentSignature.slice(-1);
      return Buffer.concat([currentSignature.slice(0, 64), Buffer.alloc(31), v]);
    });
    return Buffer.concat(paddedSignatures);
  }
  \<close>
\<close>

definition padSignature :: "buffer \<Rightarrow> buffer" where
  "padSignature currentSignature =
     (let v = slice_from currentSignature (- 1)
      in concat [slice currentSignature 0 64, alloc 31, v])"

definition solidityFormatSignatures :: "buffer list \<Rightarrow> buffer" where
  "solidityFormatSignatures signatures = concat (map padSignature signatures)"

text \<open>The \<open>i\<close>-th 96-byte record of a marshalled signature buffer.\<close>

definition record_at :: "buffer \<Rightarrow> nat \<Rightarrow> buffer" where
  "record_at out i = take 96 (drop (96 * i) out)"

section \<open>Errors and numbers\<close>

text \<open>
  Exceptions of the source are values. \<open>TypeError\<close> is what reading a property of
  \<open>undefined\<close> or \<open>BigInt(undefined)\<close> throws, \<open>RangeError\<close> what \<open>BigInt\<close> of a
  non-integral number throws; \<open>StateIoError\<close> is the fatal error of the world state
  store, and the other constructors are the errors the server raises itself.
\<close>

datatype error =
    TypeError
  | RangeError
  | StateIoError
  | NullifierExists nat
  | MerkleRootMissing
  | ProofVerificationFailed
  | ConfigError

text \<open>
  \<open>bigint\<close> division truncates towards zero. Every division of the source has a
  divisor that is checked or cannot be zero.
\<close>

definition bigint_div :: "int \<Rightarrow> int \<Rightarrow> int" where
  "bigint_div a b = sgn a * sgn b * (\<bar>a\<bar> div \<bar>b\<bar>)"

text \<open>
  A JavaScript \<open>number\<close> is an IEEE 754 binary64 value: a finite double, an infinity or
  \<open>NaN\<close>. A finite double is kept as the rational it denotes. The two zeros are one value:
  \<open>computeSurplusRatio\<close> cannot tell them apart, since the only zero it divides by is the
  \<open>+0\<close> of a count, and \<open>1 - (-0)\<close> is \<open>1 - 0\<close>.
\<close>

datatype number = Fin rat | PosInf | NegInf | NaN

text \<open>
  Rounding to the nearest double, ties to even, as every arithmetic operation on numbers
  and the conversion \<open>Number(bigint)\<close> round their exact result.

  \<open>bitLength n\<close> is the number of binary digits of a positive integer, and \<open>exponent x\<close>
  the \<open>e\<close> with \<open>2^e \<le> x < 2^(e+1)\<close> for a positive rational. The doubles around \<open>x\<close>
  are the multiples of \<open>ulp x\<close>: 53 significant bits for a normal number, and the fixed
  spacing \<open>2^-1074\<close> below \<open>2^-1022\<close>, where doubles are subnormal.
\<close>

fun bitLength :: "int \<Rightarrow> nat" where
  "bitLength n = (if n \<le> 0 then 0 else Suc (bitLength (n div 2)))"

declare bitLength.simps [simp del]

definition exponent :: "rat \<Rightarrow> int" where
  "exponent x =
     (if 1 \<le> x then int (bitLength \<lfloor>x\<rfloor>) - 1
      else - int (bitLength (\<lceil>1 / x\<rceil> - 1)))"

definition ulp :: "rat \<Rightarrow> rat" where
  "ulp x = 2 powi (max (exponent x) (- 1022) - 52)"

definition roundTiesToEven :: "rat \<Rightarrow> int" where
  "roundTiesToEven x =
     (let f = \<lfloor>x\<rfloor>; d = x - of_int f in
      if d < 1 / 2 then f else if 1 / 2 < d then f + 1 else if even f then f else f + 1)"

text \<open>
  \<open>roundMagnitude\<close> rounds a positive rational to a multiple of its \<open>ulp\<close>, and
  \<open>roundDouble\<close> any rational, by its sign. A result of magnitude \<open>2^1024\<close> or more is
  beyond the largest double: the operation overflows to an infinity.
\<close>

definition roundMagnitude :: "rat \<Rightarrow> rat" where
  "roundMagnitude x = of_int (roundTiesToEven (x / ulp x)) * ulp x"

definition roundDouble :: "rat \<Rightarrow> rat" where
  "roundDouble x = (if x = 0 then 0 else sgn x * roundMagnitude \<bar>x\<bar>)"

definition toNumber :: "rat \<Rightarrow> number" where
  "toNumber x =
     (let r = roundDouble x in
      if 2 ^ 1024 \<le> r then PosInf else if r \<le> - (2 ^ 1024) then NegInf else Fin r)"

text \<open>\<open>Number(n)\<close> of a \<open>bigint\<close>: the double nearest to the integer.\<close>

definition Number :: "int \<Rightarrow> number" where
  "Number n = toNumber (of_int n)"

text \<open>
  \<open>x / this.txsPerRollup\<close>: the division of a number by the number that holds the count
  \<open>txsPerRollup\<close>. The count is an integer that its double holds exactly, so the quotient
  is the exact quotient, rounded; a zero count is \<open>+0\<close>.
\<close>

fun number_div :: "number \<Rightarrow> int \<Rightarrow> number" where
  "number_div (Fin a) n =
     (if n \<noteq> 0 then toNumber (a / of_int n)
      else if a = 0 then NaN else if 0 < a then PosInf else NegInf)"
| "number_div PosInf n = (if 0 \<le> n then PosInf else NegInf)"
| "number_div NegInf n = (if 0 \<le> n then NegInf else PosInf)"
| "number_div NaN n = NaN"

text \<open>\<open>1 - x\<close>, rounded.\<close>

fun one_minus :: "number \<Rightarrow> number" where
  "one_minus (Fin r) = toNumber (1 - r)"
| "one_minus PosInf = NegInf"
| "one_minus NegInf = PosInf"
| "one_minus NaN = NaN"

text \<open>\<open>Math.max(0, x)\<close> and \<open>Math.min(1, x)\<close>: exact, and \<open>NaN\<close> if \<open>x\<close> is.\<close>

fun Math_max0 :: "number \<Rightarrow> number" where
  "Math_max0 (Fin r) = Fin (max 0 r)"
| "Math_max0 PosInf = PosInf"
| "Math_max0 NegInf = Fin 0"
| "Math_max0 NaN = NaN"

fun Math_min1 :: "number \<Rightarrow> number" where
  "Math_min1 (Fin r) = Fin (min 1 r)"
| "Math_min1 PosInf = Fin 1"
| "Math_min1 NegInf = NegInf"
| "Math_min1 NaN = NaN"

text \<open>The order of the numbers that are not \<open>NaN\<close>.\<close>

fun number_le :: "number \<Rightarrow> number \<Rightarrow> bool" where
  "number_le NaN y = False"
| "number_le x NaN = False"
| "number_le NegInf y = True"
| "number_le x PosInf = True"
| "number_le (Fin a) (Fin b) = (a \<le> b)"
| "number_le x y = False"

section \<open>FeeCalculator\<close>

text \<open>
  The enums \<open>TxType\<close> and \<open>ProofId\<close> and the asset ids come from a package that is not
  part of the source files; \<open>TxType\<close> is numbered in the order in which \<open>getFeeQuotes\<close>
  lists it, and \<open>AssetId.ETH\<close> is asset 0.
\<close>

datatype TxType =
  DEPOSIT | TRANSFER | WITHDRAW_TO_WALLET | WITHDRAW_TO_CONTRACT | ACCOUNT
  | DEFI_DEPOSIT | DEFI_CLAIM

fun txTypeIndex :: "TxType \<Rightarrow> nat" where
  "txTypeIndex DEPOSIT = 0"
| "txTypeIndex TRANSFER = 1"
| "txTypeIndex WITHDRAW_TO_WALLET = 2"
| "txTypeIndex WITHDRAW_TO_CONTRACT = 3"
| "txTypeIndex ACCOUNT = 4"
| "txTypeIndex DEFI_DEPOSIT = 5"
| "txTypeIndex DEFI_CLAIM = 6"

datatype ProofId =
  ProofId_DEPOSIT | ProofId_WITHDRAW | ProofId_SEND | ProofId_ACCOUNT
  | ProofId_DEFI_DEPOSIT | ProofId_DEFI_CLAIM

type_synonym AssetId = nat

definition ETH :: AssetId where
  "ETH = 0"

record BlockchainAsset =
  decimals :: nat
  gasConstants :: "int list"

record PriceTracker =
  getAssetPrice :: "AssetId \<Rightarrow> int"
  getGasPrice :: int

text \<open>
  The fields of \<open>FeeCalculator\<close> that the fee arithmetic reads.
  \<open>feeGasPriceMultiplierPct\<close> is the outcome of \<open>BigInt(this.feeGasPriceMultiplier * 100)\<close>,
  which depends on the configuration only: \<open>None\<close> when the product is not an integral
  double, where \<open>BigInt\<close> throws. \<open>txsPerRollup\<close> is a number that holds a count, kept as
  the integer.
\<close>

record FeeCalculator =
  priceTracker :: PriceTracker
  assets :: "BlockchainAsset list"
  baseTxGas :: int
  maxFeeGasPrice :: int
  feeGasPriceMultiplierPct :: "int option"
  txsPerRollup :: int
  feeFreeAssets :: "AssetId list"

text \<open>
  The proof data of a transaction as the three parser classes \<open>JoinSplitClientProofData\<close>,
  \<open>DefiDepositClientProofData\<close> and \<open>DefiClaimClientProofData\<close> read it: the proof id, the
  asset id of a join-split, the input asset of the bridge id, and the fee.
\<close>

record ClientProofData =
  proofId :: ProofId
  assetId :: AssetId
  bridgeInputAssetId :: AssetId
  txFee :: int

record TxDao =
  txType :: TxType
  proofData :: ClientProofData

text \<open>Array reads: an index outside the array gives \<open>undefined\<close> (\<open>None\<close>).\<close>

definition at_index :: "'a list \<Rightarrow> nat \<Rightarrow> 'a option" where
  "at_index xs i = (if i < length xs then Some (xs ! i) else None)"

text \<open>
  \<^verbatim>\<open>
  private applyGasPrice(value: bigint) {
    const gasPrice = this.priceTracker.getGasPrice();
    const expectedValue = (value * gasPrice * BigInt(this.feeGasPriceMultiplier * 100)) / 100n;
    const maxValue = this.maxFeeGasPrice ? value * this.maxFeeGasPrice : expectedValue;
    return expectedValue > maxValue ? maxValue : expectedValue;
  }
  \<close>
\<close>

definition applyGasPrice :: "FeeCalculator \<Rightarrow> int \<Rightarrow> error + int" where
  "applyGasPrice fc v =
     (let gasPrice = getGasPrice (priceTracker fc) in
      case feeGasPriceMultiplierPct fc of
        None \<Rightarrow> Inl RangeError
      | Some pct \<Rightarrow>
          (let expectedValue = bigint_div (v * gasPrice * pct) 100;
               maxValue = (if maxFeeGasPrice fc \<noteq> 0 then v * maxFeeGasPrice fc
                           else expectedValue)
           in Inr (if expectedValue > maxValue then maxValue else expectedValue)))"

text \<open>
  \<^verbatim>\<open>
  private toAssetPrice(assetId: AssetId, gas: bigint) {
    const price = this.priceTracker.getAssetPrice(assetId);
    const { decimals } = this.assets[assetId];
    return !price ? 0n : this.applyGasPrice(gas * 10n ** BigInt(decimals)) / price;
  }
  \<close>
\<close>

definition toAssetPrice :: "FeeCalculator \<Rightarrow> AssetId \<Rightarrow> int \<Rightarrow> error + int" where
  "toAssetPrice fc a gas =
     (let price = getAssetPrice (priceTracker fc) a in
      case at_index (assets fc) a of
        None \<Rightarrow> Inl TypeError
      | Some asset \<Rightarrow>
          if price = 0 then Inr 0
          else (case applyGasPrice fc (gas * 10 ^ decimals asset) of
                  Inl e \<Rightarrow> Inl e
                | Inr v \<Rightarrow> Inr (bigint_div v price)))"

text \<open>
  \<^verbatim>\<open>
  private toEthPrice(assetId: AssetId, price: bigint) {
    if (assetId === AssetId.ETH) {
      return price;
    }
    const { decimals } = this.assets[assetId];
    return (price * this.priceTracker.getAssetPrice(assetId)) / 10n ** BigInt(decimals);
  }
  \<close>
\<close>

definition toEthPrice :: "FeeCalculator \<Rightarrow> AssetId \<Rightarrow> int \<Rightarrow> error + int" where
  "toEthPrice fc a price =
     (if a = ETH then Inr price
      else case at_index (assets fc) a of
        None \<Rightarrow> Inl TypeError
      | Some asset \<Rightarrow>
          Inr (bigint_div (price * getAssetPrice (priceTracker fc) a) (10 ^ decimals asset)))"

text \<open>
  \<^verbatim>\<open>
  private getBaseFee(assetId: AssetId) {
    if (this.feeFreeAssets.includes(assetId)) {
      return 0n;
    }
    return this.toAssetPrice(assetId, BigInt(this.baseTxGas));
  }

  private getFeeConstant(assetId: AssetId, txType: TxType) {
    if (this.feeFreeAssets.includes(assetId)) {
      return 0n;
    }
    return this.toAssetPrice(assetId, BigInt(this.assets[assetId].gasConstants[txType]));
  }

  getMinTxFee(assetId: number, txType: TxType) {
    if (txType === TxType.ACCOUNT) {
      return 0n;
    }
    return this.getFeeConstant(assetId, txType) + this.getBaseFee(assetId);
  }
  \<close>
\<close>

definition getBaseFee :: "FeeCalculator \<Rightarrow> AssetId \<Rightarrow> error + int" where
  "getBaseFee fc a =
     (if a \<in> set (feeFreeAssets fc) then Inr 0 else toAssetPrice fc a (baseTxGas fc))"

definition getFeeConstant :: "FeeCalculator \<Rightarrow> AssetId \<Rightarrow> TxType \<Rightarrow> error + int" where
  "getFeeConstant fc a ty =
     (if a \<in> set (feeFreeAssets fc) then Inr 0
      else case at_index (assets fc) a of
        None \<Rightarrow> Inl TypeError
      | Some asset \<Rightarrow>
          (case at_index (gasConstants asset) (txTypeIndex ty) of
             None \<Rightarrow> Inl TypeError
           | Some gas \<Rightarrow> toAssetPrice fc a gas))"

definition getMinTxFee :: "FeeCalculator \<Rightarrow> AssetId \<Rightarrow> TxType \<Rightarrow> error + int" where
  "getMinTxFee fc a ty =
     (if ty = ACCOUNT then Inr 0
      else case getFeeConstant fc a ty of
        Inl e \<Rightarrow> Inl e
      | Inr feeConstant \<Rightarrow>
          (case getBaseFee fc a of
             Inl e \<Rightarrow> Inl e
           | Inr baseFee \<Rightarrow> Inr (feeConstant + baseFee)))"

text \<open>
  \<^verbatim>\<open>
  private getFeeForTxDao(tx: TxDao) {
    if (tx.txType === TxType.ACCOUNT) {
      return { assetId: AssetId.ETH, txFee: 0n };
    }
    const proofData = new ClientProofData(tx.proofData);
    switch (proofData.proofId) {
      case ProofId.DEFI_DEPOSIT: {
        const { bridgeId, txFee } = new DefiDepositClientProofData(proofData);
        return { assetId: bridgeId.inputAssetId, txFee };
      }
      case ProofId.DEFI_CLAIM: {
        const { bridgeId, txFee } = new DefiClaimClientProofData(proofData);
        return { assetId: bridgeId.inputAssetId, txFee };
      }
    }
    const { assetId, txFee } = new JoinSplitClientProofData(proofData);
    return { assetId, txFee };
  }
  \<close>
\<close>

definition getFeeForTxDao :: "TxDao \<Rightarrow> AssetId \<times> int" where
  "getFeeForTxDao tx =
     (if txType tx = ACCOUNT then (ETH, 0)
      else case proofId (proofData tx) of
        ProofId_DEFI_DEPOSIT \<Rightarrow> (bridgeInputAssetId (proofData tx), txFee (proofData tx))
      | ProofId_DEFI_CLAIM \<Rightarrow> (bridgeInputAssetId (proofData tx), txFee (proofData tx))
      | _ \<Rightarrow> (assetId (proofData tx), txFee (proofData tx)))"

text \<open>
  \<^verbatim>\<open>
  computeSurplusRatio(txs: TxDao[]) {
    const baseFee = this.getBaseFee(AssetId.ETH);
    if (!baseFee) {
      return 1;
    }
    const feeSurplus = txs
      .map(tx => {
        const { assetId, txFee } = this.getFeeForTxDao(tx);
        const minFee = this.getMinTxFee(assetId, tx.txType);
        return this.toEthPrice(assetId, txFee - minFee);
      })
      .reduce((acc, surplus) => acc + surplus, 0n);
    const ratio = 1 - Number(feeSurplus / baseFee) / this.txsPerRollup;
    return Math.min(1, Math.max(0, ratio));
  }
  \<close>
  \<open>txSurplus\<close> is the function mapped over the transactions, and \<open>feeSurplus\<close> the
  constant of that name.
\<close>

definition txSurplus :: "FeeCalculator \<Rightarrow> TxDao \<Rightarrow> error + int" where
  "txSurplus fc tx =
     (case getFeeForTxDao tx of (a, fee) \<Rightarrow>
        (case getMinTxFee fc a (txType tx) of
           Inl e \<Rightarrow> Inl e
         | Inr minFee \<Rightarrow> toEthPrice fc a (fee - minFee)))"

text \<open>\<open>txs.map(...)\<close>: the first transaction whose surplus throws ends the map.\<close>

fun mapSurplus :: "FeeCalculator \<Rightarrow> TxDao list \<Rightarrow> error + int list" where
  "mapSurplus fc [] = Inr []"
| "mapSurplus fc (tx # txs) =
     (case txSurplus fc tx of
        Inl e \<Rightarrow> Inl e
      | Inr s \<Rightarrow> (case mapSurplus fc txs of Inl e \<Rightarrow> Inl e | Inr ss \<Rightarrow> Inr (s # ss)))"

definition feeSurplus :: "FeeCalculator \<Rightarrow> TxDao list \<Rightarrow> error + int" where
  "feeSurplus fc txs =
     (case mapSurplus fc txs of
        Inl e \<Rightarrow> Inl e
      | Inr ss \<Rightarrow> Inr (foldl (\<lambda>acc surplus. acc + surplus) 0 ss))"

definition computeSurplusRatio :: "FeeCalculator \<Rightarrow> TxDao list \<Rightarrow> error + number" where
  "computeSurplusRatio fc txs =
     (case getBaseFee fc ETH of
        Inl e \<Rightarrow> Inl e
      | Inr baseFee \<Rightarrow>
          if baseFee = 0 then Inr (Fin 1)
          else (case feeSurplus fc txs of
                  Inl e \<Rightarrow> Inl e
                | Inr surplus \<Rightarrow>
                    (let ratio = one_minus (number_div (Number (bigint_div surplus baseFee))
                                                       (txsPerRollup fc))
                     in Inr (Math_min1 (Math_max0 ratio)))))"

text \<open>
  The formulas as the specification words them, to compare the code with:
  \<open>apply(v) = min(v * maxFeeGasPrice, v * gasPrice * multiplierPct / 100)\<close>,
  \<open>toAssetPrice = apply(gas * 10^decimals) / oraclePrice\<close> and
  \<open>surplusRatio = clamp(1 - \<Sigma> / (baseFee * txsPerRollup), 0, 1)\<close> as an exact rational.
\<close>

definition spec_apply :: "FeeCalculator \<Rightarrow> int \<Rightarrow> int \<Rightarrow> int" where
  "spec_apply fc pct v =
     min (v * maxFeeGasPrice fc) (bigint_div (v * getGasPrice (priceTracker fc) * pct) 100)"

definition spec_toAssetPrice :: "FeeCalculator \<Rightarrow> int \<Rightarrow> nat \<Rightarrow> AssetId \<Rightarrow> int \<Rightarrow> int" where
  "spec_toAssetPrice fc pct dec a gas =
     bigint_div (spec_apply fc pct (gas * 10 ^ dec)) (getAssetPrice (priceTracker fc) a)"

definition clamp01 :: "rat \<Rightarrow> rat" where
  "clamp01 r = min 1 (max 0 r)"

definition spec_surplusRatio :: "int \<Rightarrow> int \<Rightarrow> int \<Rightarrow> rat" where
  "spec_surplusRatio surplus baseFee n =
     clamp01 (1 - of_int surplus / (of_int baseFee * of_int n))"

text \<open>
  Raising the fee of one transaction, and a configuration whose gas amounts, gas prices
  and oracle prices are not negative (they are unsigned quantities of the chain).
\<close>

definition raiseFee :: "TxDao \<Rightarrow> int \<Rightarrow> TxDao" where
  "raiseFee tx fee = tx\<lparr>proofData := (proofData tx)\<lparr>txFee := fee\<rparr>\<rparr>"

definition nonneg_config :: "FeeCalculator \<Rightarrow> bool" where
  "nonneg_config fc \<longleftrightarrow>
     0 \<le> baseTxGas fc \<and> 0 \<le> maxFeeGasPrice fc \<and> 0 \<le> getGasPrice (priceTracker fc)
     \<and> (case feeGasPriceMultiplierPct fc of None \<Rightarrow> True | Some pct \<Rightarrow> 0 \<le> pct)
     \<and> list_all (\<lambda>a. 0 \<le> getAssetPrice (priceTracker fc) a) [0 ..< length (assets fc)]"

text \<open>
  A concrete calculator: one asset with 18 decimals priced at \<open>10^18\<close>, gas price 2,
  multiplier 1.0, no gas price cap, base gas 10000, ten transactions per rollup.
  Its base fee is 20000.
\<close>

definition exampleFeeCalculator :: FeeCalculator where
  "exampleFeeCalculator =
     \<lparr>priceTracker = \<lparr>getAssetPrice = (\<lambda>_. 10 ^ 18), getGasPrice = 2\<rparr>,
      assets = [\<lparr>decimals = 18, gasConstants = [0, 0, 0, 0, 0, 0, 0]\<rparr>],
      baseTxGas = 10000, maxFeeGasPrice = 0, feeGasPriceMultiplierPct = Some 100,
      txsPerRollup = 10, feeFreeAssets = []\<rparr>"

definition exampleTx :: "int \<Rightarrow> TxDao" where
  "exampleTx fee =
     \<lparr>txType = TRANSFER,
      proofData = \<lparr>proofId = ProofId_SEND, assetId = 0, bridgeInputAssetId = 0, txFee = fee\<rparr>\<rparr>"

text \<open>An account transaction and a DeFi deposit whose bridge takes asset 0.\<close>

definition accountTx :: TxDao where
  "accountTx =
     \<lparr>txType = ACCOUNT,
      proofData = \<lparr>proofId = ProofId_ACCOUNT, assetId = 0, bridgeInputAssetId = 0, txFee = 999\<rparr>\<rparr>"

definition defiTx :: TxDao where
  "defiTx =
     \<lparr>txType = DEFI_DEPOSIT,
      proofData = \<lparr>proofId = ProofId_DEFI_DEPOSIT, assetId = 3, bridgeInputAssetId = 0,
                   txFee = 25000\<rparr>\<rparr>"

section \<open>State and exceptions\<close>

text \<open>
  A method that changes state and may throw is a function from the state to an outcome
  and the state it leaves: \<open>Inl\<close> an exception, with the state as it was at the throw,
  \<open>Inr\<close> a returned value.
\<close>

type_synonym ('a, 's) io = "'s \<Rightarrow> (error + 'a) \<times> 's"

definition return_io :: "'a \<Rightarrow> ('a, 's) io" where
  "return_io a s = (Inr a, s)"

definition throw_io :: "error \<Rightarrow> ('a, 's) io" where
  "throw_io e s = (Inl e, s)"

definition bind_io :: "('a, 's) io \<Rightarrow> ('a \<Rightarrow> ('b, 's) io) \<Rightarrow> ('b, 's) io" where
  "bind_io m f s = (case m s of (Inl e, s') \<Rightarrow> (Inl e, s') | (Inr a, s') \<Rightarrow> f a s')"

definition then_io :: "(unit, 's) io \<Rightarrow> ('b, 's) io \<Rightarrow> ('b, 's) io" where
  "then_io m k = bind_io m (\<lambda>_. k)"

section \<open>WorldStateDb\<close>

text \<open>
  Modelled from the spec: the class \<open>WorldStateDb\<close> (\<open>./world_state_db\<close>) is not among
  the source files. Section 4.1 of the specification gives its operations: three Merkle
  trees with ids 0 (data), 1 (nullifier) and 2 (root), a depth fixed at construction,
  \<open>put\<close> staging a mutation in an overlay, \<open>getHashPath\<close> reflecting the staged
  state, \<open>commit\<close> promoting the overlay, \<open>rollback\<close> discarding it, a missing leaf
  reading as 64 zero bytes, and a bad tree id or an out-of-range key being fatal. A
  \<open>put\<close> at an index raises the size of the tree to cover it (section 4.9, step 2: the
  padding leaf "pads tree size"). The roots and sizes that the server reads while it
  stages leaves are those of the staged trees; \<open>get\<close> reads the committed state
  (section 4.6).

  The hash of the trees is not specified: the root and the hash path of a tree are given
  functions \<open>rootOf\<close> and \<open>pathOf\<close> of its leaves, fixed at construction with the depths.
  A hash path is \<open>HashPath.data\<close>, a list of levels, each a list of buffers.
\<close>

type_synonym HashPath = "buffer list list"

record MerkleTree =
  leaves :: "nat \<Rightarrow> buffer"
  tree_size :: nat

record WorldStateDb =
  depth :: "nat \<Rightarrow> nat"
  rootOf :: "nat \<Rightarrow> (nat \<Rightarrow> buffer) \<Rightarrow> buffer"
  pathOf :: "nat \<Rightarrow> (nat \<Rightarrow> buffer) \<Rightarrow> nat \<Rightarrow> HashPath"
  committed :: "nat \<Rightarrow> MerkleTree"
  staged :: "nat \<Rightarrow> MerkleTree"

text \<open>Modelled from the spec: a missing leaf reads as all zeros (64 bytes).\<close>

definition empty_tree :: MerkleTree where
  "empty_tree = \<lparr>leaves = (\<lambda>_. alloc 64), tree_size = 0\<rparr>"

text \<open>
  Modelled from the spec: "bad tree id or out-of-range key: fatal". The keys of a tree
  of depth \<open>d\<close> are the indices below \<open>2^d\<close>.
\<close>

definition valid_key :: "WorldStateDb \<Rightarrow> nat \<Rightarrow> nat \<Rightarrow> bool" where
  "valid_key db treeId key \<longleftrightarrow> treeId < 3 \<and> key < 2 ^ depth db treeId"

text \<open>
  Modelled from the spec: \<open>size(treeId)\<close> and \<open>root(treeId)\<close> of section 4.1, read on the
  staged trees.
\<close>

definition getSize :: "WorldStateDb \<Rightarrow> nat \<Rightarrow> nat" where
  "getSize db treeId = tree_size (staged db treeId)"

definition getRoot :: "WorldStateDb \<Rightarrow> nat \<Rightarrow> buffer" where
  "getRoot db treeId = rootOf db treeId (leaves (staged db treeId))"

text \<open>
  Modelled from the spec: \<open>get(treeId, key)\<close>, a read of the committed state, and
  \<open>getHashPath(treeId, key)\<close>, which reflects the staged state. Neither changes the
  store.
\<close>

definition get :: "nat \<Rightarrow> nat \<Rightarrow> (buffer, WorldStateDb) io" where
  "get treeId key db =
     (if valid_key db treeId key then (Inr (leaves (committed db treeId) key), db)
      else (Inl StateIoError, db))"

definition getHashPath :: "nat \<Rightarrow> nat \<Rightarrow> (HashPath, WorldStateDb) io" where
  "getHashPath treeId key db =
     (if valid_key db treeId key
      then (Inr (pathOf db treeId (leaves (staged db treeId)) key), db)
      else (Inl StateIoError, db))"

text \<open>
  Modelled from the spec: \<open>put(treeId, key, value)\<close> stages the leaf in the overlay, and
  the staged tree grows to cover the key.
\<close>

definition put_leaf :: "MerkleTree \<Rightarrow> nat \<Rightarrow> buffer \<Rightarrow> MerkleTree" where
  "put_leaf t key v =
     \<lparr>leaves = (leaves t)(key := v), tree_size = max (tree_size t) (key + 1)\<rparr>"

definition put :: "nat \<Rightarrow> nat \<Rightarrow> buffer \<Rightarrow> (unit, WorldStateDb) io" where
  "put treeId key v db =
     (if valid_key db treeId key
      then (Inr (), db\<lparr>staged := (staged db)(treeId := put_leaf (staged db treeId) key v)\<rparr>)
      else (Inl StateIoError, db))"

text \<open>
  Modelled from the spec: \<open>commit\<close> promotes the overlay, \<open>rollback\<close> discards it.
\<close>

definition commit :: "(unit, WorldStateDb) io" where
  "commit db = (Inr (), db\<lparr>committed := staged db\<rparr>)"

definition rollback :: "(unit, WorldStateDb) io" where
  "rollback db = (Inr (), db\<lparr>staged := committed db\<rparr>)"

text \<open>No mutation is staged: the state between two items of the state queue.\<close>

definition clean :: "WorldStateDb \<Rightarrow> bool" where
  "clean db \<longleftrightarrow> staged db = committed db"

section \<open>Big-endian integers\<close>

text \<open>
  \<open>toBigIntBE\<close> and \<open>toBufferBE\<close> of the package \<open>bigint-buffer\<close>; \<open>toBufferBE\<close> is
  given for a value that fits the width, as the source uses it (\<open>toBufferBE(1n, 64)\<close>).
\<close>

definition toBigIntBE :: "buffer \<Rightarrow> nat" where
  "toBigIntBE buf = foldl (\<lambda>acc b. 256 * acc + unat b) 0 buf"

fun be_bytes :: "nat \<Rightarrow> nat \<Rightarrow> buffer" where
  "be_bytes 0 n = []"
| "be_bytes (Suc w) n = be_bytes w (n div 256) @ [of_nat (n mod 256)]"

definition toBufferBE :: "nat \<Rightarrow> nat \<Rightarrow> buffer" where
  "toBufferBE n width = be_bytes width n"

section \<open>Server\<close>

text \<open>
  Modelled from the spec: the classes \<open>JoinSplitProof\<close>, \<open>Proof\<close>, \<open>Block\<close> and
  \<open>Rollup\<close> are not among the source files. Section 3 of the specification lists
  their fields: those of a parsed \<open>JoinSplitProof\<close> that the server reads (its proof
  bytes are \<open>jsProofData\<close> here), the request \<open>Proof\<close> of \<open>receiveTx\<close> (its
  \<open>proofData\<close> is \<open>proofBytes\<close> here), the confirmed \<open>Block\<close> of \<open>handleNewBlock\<close>,
  and the arguments of the \<open>Rollup\<close> constructor in the order \<open>createRollup\<close> passes
  them. \<open>rollupRoot\<close> is \<open>None\<close> when the index read gives \<open>undefined\<close>.
\<close>

record JoinSplitProof =
  jsProofData :: buffer
  viewingKeys :: "buffer list"
  nullifier1 :: nat
  nullifier2 :: nat
  newNote1 :: buffer
  newNote2 :: buffer
  noteTreeRoot :: buffer

record Proof =
  proofBytes :: buffer
  encViewingKey1 :: buffer
  encViewingKey2 :: buffer

record Block =
  blockNum :: nat
  dataStartIndex :: nat
  numDataEntries :: nat
  dataEntries :: "buffer list"
  nullifiers :: "buffer list"

record Rollup =
  rollupId :: nat
  rollupDataStartIndex :: nat
  proofs :: "buffer list"
  rollupRoot :: "buffer option"
  oldDataRoot :: buffer
  newDataRoot :: buffer
  oldDataPath :: HashPath
  newDataPath :: HashPath
  oldNullRoot :: buffer
  newNullRoots :: "buffer list"
  oldNullPaths :: "HashPath list"
  newNullPaths :: "HashPath list"
  oldRootRoot :: buffer
  oldRootPaths :: "HashPath list"

subsection \<open>handleNewBlock\<close>

text \<open>
  \<^verbatim>\<open>
  private async handleNewBlock(block: Block) {
    for (let i = 0; i < block.dataEntries.length; ++i) {
      await this.worldStateDb.put(0, BigInt(block.dataStartIndex + i), block.dataEntries[i]);
    }

    // Pad data tree with zero entries to ensure correct size.
    if (block.dataEntries.length < block.numDataEntries) {
      await this.worldStateDb.put(0, BigInt(block.dataStartIndex + block.numDataEntries - 1),
        Buffer.alloc(64, 0));
    }

    const nonEmptyValue = Buffer.alloc(64, 0);
    nonEmptyValue.writeUInt8(1, 63);

    const dataRoot = this.worldStateDb.getRoot(0);
    await this.worldStateDb.put(2, toBigIntBE(dataRoot.slice(16)), nonEmptyValue);

    for (const nullifier of block.nullifiers) {
      await this.worldStateDb.put(1, toBigIntBE(nullifier), nonEmptyValue);
    }

    await this.worldStateDb.commit();
  }
  \<close>
  \<open>putDataEntries\<close> is the first loop from an index on, with the entries not yet
  written, and \<open>putNullifiers\<close> the second loop.
\<close>

fun putDataEntries :: "nat \<Rightarrow> buffer list \<Rightarrow> (unit, WorldStateDb) io" where
  "putDataEntries index [] = return_io ()"
| "putDataEntries index (entry # entries) =
     then_io (put 0 index entry) (putDataEntries (index + 1) entries)"

fun putNullifiers :: "buffer \<Rightarrow> buffer list \<Rightarrow> (unit, WorldStateDb) io" where
  "putNullifiers v [] = return_io ()"
| "putNullifiers v (nullifier # rest) =
     then_io (put 1 (toBigIntBE nullifier) v) (putNullifiers v rest)"

definition nonEmptyValue :: buffer where
  "nonEmptyValue = (alloc 64)[63 := 1]"

text \<open>The padding of the data tree, "to ensure correct size".\<close>

definition padData :: "Block \<Rightarrow> (unit, WorldStateDb) io" where
  "padData block =
     (if length (dataEntries block) < numDataEntries block
      then put 0 (dataStartIndex block + numDataEntries block - 1) (alloc 64)
      else return_io ())"

definition handleNewBlock :: "Block \<Rightarrow> (unit, WorldStateDb) io" where
  "handleNewBlock block =
     then_io (putDataEntries (dataStartIndex block) (dataEntries block))
    (then_io (padData block)
    (bind_io (\<lambda>db. (Inr (getRoot db 0), db)) (\<lambda>dataRoot.
     then_io (put 2 (toBigIntBE (slice_from dataRoot 16)) nonEmptyValue)
    (then_io (putNullifiers nonEmptyValue (nullifiers block))
     commit))))"

subsection \<open>createRollup\<close>

text \<open>
  \<^verbatim>\<open>
  private async createRollup(txs: JoinSplitProof[]) {
    const dataStartIndex = this.worldStateDb.getSize(0);

    // Get old data.
    const oldDataRoot = this.worldStateDb.getRoot(0);
    const oldDataPath = await this.worldStateDb.getHashPath(0, dataStartIndex);
    const oldNullRoot = this.worldStateDb.getRoot(1);
    const oldRootRoot = this.worldStateDb.getRoot(2);

    // Insert each txs elements into the db (modified state will be thrown away).
    let nextDataIndex = dataStartIndex;
    const newNullRoots: Buffer[] = [];
    const oldNullPaths: HashPath[] = [];
    const newNullPaths: HashPath[] = [];
    const oldRootPaths: HashPath[] = [];

    for (const proof of txs) {
      await this.worldStateDb.put(0, nextDataIndex++, proof.newNote1);
      await this.worldStateDb.put(0, nextDataIndex++, proof.newNote2);

      oldNullPaths.push(await this.worldStateDb.getHashPath(1, proof.nullifier1));
      await this.worldStateDb.put(1, proof.nullifier1, toBufferBE(1n, 64));
      newNullRoots.push(this.worldStateDb.getRoot(1));
      newNullPaths.push(await this.worldStateDb.getHashPath(1, proof.nullifier1));

      oldNullPaths.push(await this.worldStateDb.getHashPath(1, proof.nullifier2));
      await this.worldStateDb.put(1, proof.nullifier2, toBufferBE(1n, 64));
      newNullRoots.push(this.worldStateDb.getRoot(1));
      newNullPaths.push(await this.worldStateDb.getHashPath(1, proof.nullifier2));

      const dataRootIndex = proof.noteTreeRoot.slice(16);
      oldRootPaths.push(await this.worldStateDb.getHashPath(2, toBigIntBE(dataRootIndex)));
    }

    // Get new data.
    const newDataPath = await this.worldStateDb.getHashPath(0, dataStartIndex);
    const rollupRootHeight = Math.log2(this.rollupSize) + 1;
    const rootIndex = (Number(dataStartIndex) / (this.rollupSize * 2)) % 2;
    const rollupRoot = newDataPath.data[rollupRootHeight][rootIndex];
    const newDataRoot = this.worldStateDb.getRoot(0);

    // Discard changes.
    await this.worldStateDb.rollback();

    return new Rollup(this.rollupDb.getNextRollupId(), Number(dataStartIndex),
      txs.map(tx => tx.proofData), rollupRoot, oldDataRoot, newDataRoot, oldDataPath,
      newDataPath, oldNullRoot, newNullRoots, oldNullPaths, newNullPaths, oldRootRoot,
      oldRootPaths);
  }
  \<close>
  \<open>Staging\<close> holds the lists that the loop fills, with the next free data index.
  \<open>rollupSize\<close> and the result of \<open>this.rollupDb.getNextRollupId()\<close> are parameters.
\<close>

record Staging =
  nextDataIndex :: nat
  accNewNullRoots :: "buffer list"
  accOldNullPaths :: "HashPath list"
  accNewNullPaths :: "HashPath list"
  accOldRootPaths :: "HashPath list"

definition initialStaging :: "nat \<Rightarrow> Staging" where
  "initialStaging start =
     \<lparr>nextDataIndex = start, accNewNullRoots = [], accOldNullPaths = [],
      accNewNullPaths = [], accOldRootPaths = []\<rparr>"

text \<open>One nullifier: the old path, the put, the new root and the new path.\<close>

definition stageNullifier :: "nat \<Rightarrow> Staging \<Rightarrow> (Staging, WorldStateDb) io" where
  "stageNullifier nullifier acc =
     bind_io (getHashPath 1 nullifier) (\<lambda>oldPath.
     then_io (put 1 nullifier (toBufferBE 1 64))
    (bind_io (\<lambda>db. (Inr (getRoot db 1), db)) (\<lambda>newRoot.
     bind_io (getHashPath 1 nullifier) (\<lambda>newPath.
     return_io (acc\<lparr>accOldNullPaths := accOldNullPaths acc @ [oldPath],
                     accNewNullRoots := accNewNullRoots acc @ [newRoot],
                     accNewNullPaths := accNewNullPaths acc @ [newPath]\<rparr>)))))"

text \<open>The body of the loop over the transactions.\<close>

definition stageProof :: "JoinSplitProof \<Rightarrow> Staging \<Rightarrow> (Staging, WorldStateDb) io" where
  "stageProof proof acc =
     then_io (put 0 (nextDataIndex acc) (newNote1 proof))
    (then_io (put 0 (nextDataIndex acc + 1) (newNote2 proof))
    (bind_io (stageNullifier (nullifier1 proof) (acc\<lparr>nextDataIndex := nextDataIndex acc + 2\<rparr>))
       (\<lambda>acc1.
     bind_io (stageNullifier (nullifier2 proof) acc1) (\<lambda>acc2.
     bind_io (getHashPath 2 (toBigIntBE (slice_from (noteTreeRoot proof) 16))) (\<lambda>rootPath.
     return_io (acc2\<lparr>accOldRootPaths := accOldRootPaths acc2 @ [rootPath]\<rparr>))))))"

fun stageProofs :: "JoinSplitProof list \<Rightarrow> Staging \<Rightarrow> (Staging, WorldStateDb) io" where
  "stageProofs [] acc = return_io acc"
| "stageProofs (proof # txs) acc = bind_io (stageProof proof acc) (stageProofs txs)"

text \<open>
  \<open>Math.log2(rollupSize)\<close> as an index: the exponent when \<open>rollupSize\<close> is a power of
  two, no integer otherwise (and \<open>-Infinity\<close> for 0).
\<close>

function log2_exact :: "nat \<Rightarrow> nat option" where
  "log2_exact n =
     (if n = 0 then None
      else if n = 1 then Some 0
      else if even n then map_option Suc (log2_exact (n div 2))
      else None)"
  by pat_completeness auto
termination
  by (relation "measure id") auto

declare log2_exact.simps [simp del]

text \<open>
  \<open>(Number(dataStartIndex) / (this.rollupSize * 2)) % 2\<close> as an index: an integer when
  the division is exact, no integer otherwise. \<open>Number\<close> is taken as exact, as it is
  for a data index below \<open>2^53\<close>.
\<close>

definition rootIndex :: "nat \<Rightarrow> nat \<Rightarrow> nat option" where
  "rootIndex start rollupSize =
     (if rollupSize \<noteq> 0 \<and> (rollupSize * 2) dvd start
      then Some ((start div (rollupSize * 2)) mod 2) else None)"

text \<open>
  \<open>newDataPath.data[rollupRootHeight][rootIndex]\<close>: reading a level that the path does
  not have gives \<open>undefined\<close>, and indexing \<open>undefined\<close> throws; reading an entry that
  the level does not have gives \<open>undefined\<close>.
\<close>

definition readRollupRoot :: "HashPath \<Rightarrow> nat \<Rightarrow> nat \<Rightarrow> error + buffer option" where
  "readRollupRoot path start rollupSize =
     (case log2_exact rollupSize of
        None \<Rightarrow> Inl TypeError
      | Some l \<Rightarrow>
          (case at_index path (l + 1) of
             None \<Rightarrow> Inl TypeError
           | Some level \<Rightarrow>
               Inr (case rootIndex start rollupSize of
                      None \<Rightarrow> None
                    | Some i \<Rightarrow> at_index level i)))"

definition createRollup ::
  "nat \<Rightarrow> nat \<Rightarrow> JoinSplitProof list \<Rightarrow> (Rollup, WorldStateDb) io" where
  "createRollup rollupSize nextRollupId txs =
     bind_io (\<lambda>db. (Inr (getSize db 0), db)) (\<lambda>start.
     bind_io (\<lambda>db. (Inr (getRoot db 0), db)) (\<lambda>oldData.
     bind_io (getHashPath 0 start) (\<lambda>oldPath.
     bind_io (\<lambda>db. (Inr (getRoot db 1), db)) (\<lambda>oldNull.
     bind_io (\<lambda>db. (Inr (getRoot db 2), db)) (\<lambda>oldRoot.
     bind_io (stageProofs txs (initialStaging start)) (\<lambda>acc.
     bind_io (getHashPath 0 start) (\<lambda>newPath.
     bind_io (\<lambda>db. (readRollupRoot newPath start rollupSize, db)) (\<lambda>root.
     bind_io (\<lambda>db. (Inr (getRoot db 0), db)) (\<lambda>newData.
     then_io rollback
      (return_io
        \<lparr>rollupId = nextRollupId, rollupDataStartIndex = start,
         proofs = map jsProofData txs, rollupRoot = root,
         oldDataRoot = oldData, newDataRoot = newData,
         oldDataPath = oldPath, newDataPath = newPath,
         oldNullRoot = oldNull, newNullRoots = accNewNullRoots acc,
         oldNullPaths = accOldNullPaths acc, newNullPaths = accNewNullPaths acc,
         oldRootRoot = oldRoot, oldRootPaths = accOldRootPaths acc\<rparr>))))))))))"

text \<open>The leaves of the data tree after the entries and the padding of a block.\<close>

definition blockDataLeaves :: "Block \<Rightarrow> (nat \<Rightarrow> buffer) \<Rightarrow> (nat \<Rightarrow> buffer)" where
  "blockDataLeaves block lv =
     (\<lambda>k. if dataStartIndex block \<le> k \<and> k < dataStartIndex block + length (dataEntries block)
          then dataEntries block ! (k - dataStartIndex block)
          else if length (dataEntries block) < numDataEntries block
                  \<and> k = dataStartIndex block + numDataEntries block - 1
          then alloc 64
          else lv k)"

subsection \<open>What a method leaves of the store\<close>

text \<open>
  \<open>frame db db'\<close>: the store \<open>db'\<close> differs from \<open>db\<close> in its staged trees only. A
  method is \<open>framing\<close> when it leaves such a store, whatever its outcome.
\<close>

definition frame :: "WorldStateDb \<Rightarrow> WorldStateDb \<Rightarrow> bool" where
  "frame db db' \<longleftrightarrow>
     depth db' = depth db \<and> rootOf db' = rootOf db \<and> pathOf db' = pathOf db
     \<and> committed db' = committed db"

definition framing :: "('a, WorldStateDb) io \<Rightarrow> bool" where
  "framing m \<longleftrightarrow> (\<forall>db. frame db (snd (m db)))"

text \<open>
  The new notes of a batch in the order in which the loop of \<open>createRollup\<close> writes
  them, and a tree's leaves with notes inserted from an index on.
\<close>

definition newNotes :: "JoinSplitProof list \<Rightarrow> buffer list" where
  "newNotes ps = concat (map (\<lambda>p. [newNote1 p, newNote2 p]) ps)"

definition insertNotes :: "(nat \<Rightarrow> buffer) \<Rightarrow> nat \<Rightarrow> buffer list \<Rightarrow> (nat \<Rightarrow> buffer)" where
  "insertNotes lv start notes =
     (\<lambda>i. if start \<le> i \<and> i < start + length notes then notes ! (i - start) else lv i)"

subsection \<open>receiveTx\<close>

text \<open>
  Modelled from the spec: the class \<open>MemoryFifo\<close> (\<open>./fifo\<close>) of the two queues is not
  among the source files. By section 4.2 of the specification a queue delivers its items
  in the order in which they were put, so a queue is a list and \<open>put\<close> appends. An item
  of \<open>txQueue\<close> is a proof or \<open>null\<close> (\<open>None\<close>), the flush signal. An item of
  \<open>stateQueue\<close> is a closure: a rollup of a batch or the handling of a block.
\<close>

datatype Job = RollupJob "JoinSplitProof list" | BlockJob Block

record Server =
  worldStateDb :: WorldStateDb
  verifyProof :: "buffer \<Rightarrow> bool"
  txQueue :: "JoinSplitProof option list"
  stateQueue :: "Job list"

definition on_db :: "('a, WorldStateDb) io \<Rightarrow> ('a, Server) io" where
  "on_db m s = (case m (worldStateDb s) of (r, db) \<Rightarrow> (r, s\<lparr>worldStateDb := db\<rparr>))"

text \<open>
  \<^verbatim>\<open>
  public async receiveTx({ proofData, encViewingKey1, encViewingKey2 }: Proof) {
    const proof = new JoinSplitProof(proofData, [encViewingKey1, encViewingKey2]);

    // Check nullifiers don't exist (tree id 1 returns 0 at index).
    const emptyValue = Buffer.alloc(64, 0);
    const nullifierVal1 = await this.worldStateDb.get(1, proof.nullifier1);
    if (!nullifierVal1.equals(emptyValue)) {
      throw new Error('Nullifier 1 already exists.');
    }
    const nullifierVal2 = await this.worldStateDb.get(1, proof.nullifier2);
    if (!nullifierVal2.equals(emptyValue)) {
      throw new Error('Nullifier 2 already exists.');
    }

    if ((await this.worldStateDb.get(2, toBigIntBE(proof.noteTreeRoot.slice(16))))
          .equals(emptyValue)) {
      throw new Error('Merkle root does not exist ...');
    }

    if (!(await this.joinSplitVerifier.verifyProof(proofData))) {
      throw new Error('Proof verification failed.');
    }

    this.txQueue.put(proof);
  }
  \<close>
  \<open>newJoinSplitProof\<close> stands for the constructor \<open>new JoinSplitProof(proofData,
  viewingKeys)\<close>, which extracts the fields from the proof bytes, and \<open>verifyProof\<close>
  for \<open>this.joinSplitVerifier.verifyProof\<close>.
\<close>

definition receiveTx ::
  "(buffer \<Rightarrow> buffer list \<Rightarrow> JoinSplitProof) \<Rightarrow> Proof \<Rightarrow> (unit, Server) io" where
  "receiveTx newJoinSplitProof request =
     (let proof = newJoinSplitProof (proofBytes request)
                    [encViewingKey1 request, encViewingKey2 request];
          emptyValue = alloc 64
      in bind_io (on_db (get 1 (nullifier1 proof))) (\<lambda>nullifierVal1.
         if nullifierVal1 \<noteq> emptyValue then throw_io (NullifierExists 1)
         else bind_io (on_db (get 1 (nullifier2 proof))) (\<lambda>nullifierVal2.
         if nullifierVal2 \<noteq> emptyValue then throw_io (NullifierExists 2)
         else bind_io (on_db (get 2 (toBigIntBE (slice_from (noteTreeRoot proof) 16))))
           (\<lambda>rootVal.
         if rootVal = emptyValue then throw_io MerkleRootMissing
         else (\<lambda>s. if \<not> verifyProof s (proofBytes request)
                    then throw_io ProofVerificationFailed s
                    else (Inr (), s\<lparr>txQueue := txQueue s @ [Some proof]\<rparr>))))))"

definition flushTxs :: "Server \<Rightarrow> Server" where
  "flushTxs s = s\<lparr>txQueue := txQueue s @ [None]\<rparr>"

subsection \<open>processTxQueue\<close>

text \<open>
  \<^verbatim>\<open>
  private async processTxQueue(maxRollupWaitTime: Duration, minRollupInterval: Duration) {
    let flushTimeout!: NodeJS.Timeout;
    let lastTxReceivedTime = moment.unix(0);
    let txs: JoinSplitProof[] = [];

    if (minRollupInterval.asSeconds() > maxRollupWaitTime.asSeconds()) {
      throw new Error('minRollupInterval must be <= maxRollupWaitTime');
    }

    while (true) {
      const tx = await this.txQueue.get();
      if (tx === undefined) {
        break;
      }

      if (tx) {
        txs.push(tx);
      }

      clearTimeout(flushTimeout);
      flushTimeout = setTimeout(() => this.flushTxs(), maxRollupWaitTime.asMilliseconds());

      const shouldRollup =
        txs.length &&
        (tx === null ||
          txs.length === this.rollupSize ||
          lastTxReceivedTime.isBefore(moment().subtract(maxRollupWaitTime)));

      if (tx) {
        lastTxReceivedTime = moment();
      }

      if (shouldRollup) {
        const rollupTxs = txs;
        txs = [];
        this.stateQueue.put(() => this.rollup(rollupTxs));

        // Throttle.
        await new Promise(resolve => setTimeout(resolve, minRollupInterval.asMilliseconds()));
      }
    }
  }
  \<close>
  \<open>TxLoop\<close> holds the variables \<open>txs\<close> and \<open>lastTxReceivedTime\<close> of the loop. Times
  and durations are milliseconds, times since the epoch; \<open>lastTxReceivedTime\<close> starts at
  \<open>moment.unix(0)\<close>. The flush timer is not a variable of the model: when it fires it
  puts \<open>null\<close> on \<open>txQueue\<close>, and the loop sees that as an item; the throttle delays
  the next turn and changes no variable.
\<close>

record TxLoop =
  loop_txs :: "JoinSplitProof list"
  lastTxReceivedTime :: int

definition initialTxLoop :: TxLoop where
  "initialTxLoop = \<lparr>loop_txs = [], lastTxReceivedTime = 0\<rparr>"

text \<open>
  One turn of the loop for the item \<open>tx\<close> that \<open>txQueue.get()\<close> delivered. \<open>now\<close> is
  the clock that \<open>moment()\<close> reads in the condition and \<open>now'\<close> the clock it reads in
  the assignment to \<open>lastTxReceivedTime\<close>.
\<close>

definition shouldRollup :: "nat \<Rightarrow> int \<Rightarrow> JoinSplitProof option \<Rightarrow> int \<Rightarrow> TxLoop \<Rightarrow> bool" where
  "shouldRollup rollupSize maxRollupWaitTime tx now loop \<longleftrightarrow>
     (let pending = (case tx of Some t \<Rightarrow> loop_txs loop @ [t] | None \<Rightarrow> loop_txs loop)
      in length pending \<noteq> 0
         \<and> (tx = None \<or> length pending = rollupSize
              \<or> lastTxReceivedTime loop < now - maxRollupWaitTime))"

definition processItem ::
  "nat \<Rightarrow> int \<Rightarrow> JoinSplitProof option \<times> int \<times> int \<Rightarrow> TxLoop \<times> Job list
     \<Rightarrow> TxLoop \<times> Job list" where
  "processItem rollupSize maxRollupWaitTime item st =
     (case (item, st) of ((tx, now, now'), (loop, queue)) \<Rightarrow>
        (let pending = (case tx of Some t \<Rightarrow> loop_txs loop @ [t] | None \<Rightarrow> loop_txs loop);
             close = shouldRollup rollupSize maxRollupWaitTime tx now loop;
             received = (case tx of Some t \<Rightarrow> now' | None \<Rightarrow> lastTxReceivedTime loop)
         in if close
            then (\<lparr>loop_txs = [], lastTxReceivedTime = received\<rparr>, queue @ [RollupJob pending])
            else (\<lparr>loop_txs = pending, lastTxReceivedTime = received\<rparr>, queue)))"

fun processItems ::
  "nat \<Rightarrow> int \<Rightarrow> (JoinSplitProof option \<times> int \<times> int) list \<Rightarrow> TxLoop \<times> Job list
     \<Rightarrow> TxLoop \<times> Job list" where
  "processItems rollupSize maxRollupWaitTime [] st = st"
| "processItems rollupSize maxRollupWaitTime (item # items) st =
     processItems rollupSize maxRollupWaitTime items
       (processItem rollupSize maxRollupWaitTime item st)"

text \<open>
  The loop until the queue is cancelled, on the items delivered before that. The check
  of the two intervals comes first.
\<close>

definition processTxQueue ::
  "nat \<Rightarrow> int \<Rightarrow> int \<Rightarrow> (JoinSplitProof option \<times> int \<times> int) list \<Rightarrow> Job list
     \<Rightarrow> error + TxLoop \<times> Job list" where
  "processTxQueue rollupSize maxRollupWaitTime minRollupInterval items queue =
     (if minRollupInterval > maxRollupWaitTime then Inl ConfigError
      else Inr (processItems rollupSize maxRollupWaitTime items (initialTxLoop, queue)))"

text \<open>The pending list of a turn, after the item is appended.\<close>

definition pendingWith :: "JoinSplitProof option \<Rightarrow> TxLoop \<Rightarrow> JoinSplitProof list" where
  "pendingWith tx loop = (case tx of Some t \<Rightarrow> loop_txs loop @ [t] | None \<Rightarrow> loop_txs loop)"

text \<open>The batches of the rollup jobs of a state queue, in the order of the queue.\<close>

fun batches :: "Job list \<Rightarrow> JoinSplitProof list list" where
  "batches [] = []"
| "batches (RollupJob b # jobs) = b # batches jobs"
| "batches (BlockJob _ # jobs) = batches jobs"

text \<open>The transactions among the delivered items, in the order of delivery.\<close>

fun admitted :: "(JoinSplitProof option \<times> int \<times> int) list \<Rightarrow> JoinSplitProof list" where
  "admitted [] = []"
| "admitted ((Some t, _) # items) = t # admitted items"
| "admitted ((None, _) # items) = admitted items"

text \<open>
  The condition as the specification words it, to compare the code with: a batch is
  closed when the pending list is not empty and the flush signal was received, or the
  list has \<open>rollupSize\<close> transactions, or more than \<open>maxRollupWaitTime\<close> has elapsed
  since the oldest transaction not yet in a batch was received. \<open>since\<close> are the times
  at which the pending transactions were received, oldest first.
\<close>

definition spec_shouldClose :: "nat \<Rightarrow> int \<Rightarrow> int list \<Rightarrow> bool \<Rightarrow> int \<Rightarrow> bool" where
  "spec_shouldClose rollupSize maxRollupWaitTime since flush now \<longleftrightarrow>
     since \<noteq> []
     \<and> (flush \<or> length since = rollupSize \<or> hd since < now - maxRollupWaitTime)"

text \<open>
  The times at which the pending transactions were received, after the loop has taken
  the given items: the loop is replayed, and each transaction is kept with the time of
  its turn until its batch is closed.
\<close>

fun pendingTimes ::
  "nat \<Rightarrow> int \<Rightarrow> (JoinSplitProof option \<times> int \<times> int) list \<Rightarrow> TxLoop \<times> int list
     \<Rightarrow> TxLoop \<times> int list" where
  "pendingTimes rollupSize maxRollupWaitTime [] st = st"
| "pendingTimes rollupSize maxRollupWaitTime ((tx, now, now') # items) (loop, since) =
     pendingTimes rollupSize maxRollupWaitTime items
       (fst (processItem rollupSize maxRollupWaitTime (tx, now, now') (loop, [])),
        (if shouldRollup rollupSize maxRollupWaitTime tx now loop then []
         else (case tx of Some t \<Rightarrow> since @ [now] | None \<Rightarrow> since)))"

subsection \<open>A concrete server\<close>

text \<open>
  A store with trees of depth 8 and simple functions for the roots and the paths: the
  root of a tree is 31 zero bytes and a byte computed from its first leaves, and a path
  has three levels built from the leaves. One data root, with low bytes 5, is known.
\<close>

definition exampleRootOf :: "nat \<Rightarrow> (nat \<Rightarrow> buffer) \<Rightarrow> buffer" where
  "exampleRootOf treeId lv = alloc 31 @ [last (lv 0) + 2 * last (lv 1) + 4 * last (lv 2)]"

definition examplePathOf :: "nat \<Rightarrow> (nat \<Rightarrow> buffer) \<Rightarrow> nat \<Rightarrow> HashPath" where
  "examplePathOf treeId lv key =
     [[lv key, lv (key + 1)], [lv 0 @ lv 1, lv 2 @ lv 3], [lv 0 @ lv 1 @ lv 2 @ lv 3]]"

definition exampleDb :: WorldStateDb where
  "exampleDb =
     \<lparr>depth = (\<lambda>_. 8), rootOf = exampleRootOf, pathOf = examplePathOf,
      committed = (\<lambda>_. empty_tree)(2 := put_leaf empty_tree 5 nonEmptyValue),
      staged = (\<lambda>_. empty_tree)(2 := put_leaf empty_tree 5 nonEmptyValue)\<rparr>"

definition exampleProof :: "buffer \<Rightarrow> buffer list \<Rightarrow> JoinSplitProof" where
  "exampleProof bytes keys =
     \<lparr>jsProofData = bytes, viewingKeys = keys, nullifier1 = 1, nullifier2 = 2,
      newNote1 = alloc 63 @ [1], newNote2 = alloc 63 @ [1], noteTreeRoot = alloc 31 @ [5]\<rparr>"

text \<open>The same proof with a data root that the root tree does not know.\<close>

definition unknownRootProof :: "buffer \<Rightarrow> buffer list \<Rightarrow> JoinSplitProof" where
  "unknownRootProof bytes keys = (exampleProof bytes keys)\<lparr>noteTreeRoot := alloc 31 @ [6]\<rparr>"

definition exampleServer :: Server where
  "exampleServer =
     \<lparr>worldStateDb = exampleDb, verifyProof = (\<lambda>bytes. bytes \<noteq> []), txQueue = [],
      stateQueue = []\<rparr>"

definition exampleRequest :: Proof where
  "exampleRequest = \<lparr>proofBytes = [1, 2, 3], encViewingKey1 = [4], encViewingKey2 = [5]\<rparr>"

text \<open>
  A block for the empty store: one data entry of two, so that the second index is padded,
  and one nullifier.
\<close>

definition exampleBlock :: Block where
  "exampleBlock =
     \<lparr>blockNum = 1, dataStartIndex = 0, numDataEntries = 2,
      dataEntries = [alloc 63 @ [1]], nullifiers = [[7]]\<rparr>"

text \<open>
  A block without data: no data entry and no data slot, placed at index 4, beyond the
  end of the empty data tree.
\<close>

definition emptyBlock :: Block where
  "emptyBlock =
     \<lparr>blockNum = 2, dataStartIndex = 4, numDataEntries = 0, dataEntries = [], nullifiers = []\<rparr>"

text \<open>A transaction item delivered at a given time.\<close>

definition exampleTxItem :: "nat \<Rightarrow> int \<Rightarrow> JoinSplitProof option \<times> int \<times> int" where
  "exampleTxItem n now = (Some (exampleProof [of_nat n] []), now, now)"

section \<open>Contracts: rollup blocks from the event log\<close>

text \<open>
  The contract's event log as \<open>queryFilter\<close> of the package \<open>ethers\<close> reads it: the
  events in the order of the chain, each with its name, its indexed rollup id, the
  number of its block and the transaction that \<open>getTransaction()\<close> returns. A filter
  selects the \<open>RollupProcessed\<close> events, with a given rollup id if one is passed, from a
  given block on if one is passed. The transaction carries the arguments of its
  \<open>processRollup\<close> call as the ABI decodes them.
\<close>

datatype EventName = RollupProcessed | OtherEvent

record TransactionResponse =
  hash :: buffer
  timestamp :: nat
  confirmations :: nat
  argProofData :: buffer
  argViewingKeys :: buffer

record Event =
  eventName :: EventName
  eventRollupId :: nat
  blockNumber :: nat
  getTransaction :: TransactionResponse

record RollupBlock =
  created :: nat
  txHash :: buffer
  rollupProofData :: buffer
  viewingKeysData :: buffer
  blockRollupId :: nat
  blockRollupSize :: nat

definition queryFilter :: "Event list \<Rightarrow> nat option \<Rightarrow> nat option \<Rightarrow> Event list" where
  "queryFilter eventLog rollupIdTopic fromBlock =
     filter (\<lambda>e. eventName e = RollupProcessed
                 \<and> (case rollupIdTopic of None \<Rightarrow> True | Some r \<Rightarrow> eventRollupId e = r)
                 \<and> (case fromBlock of None \<Rightarrow> True | Some b \<Rightarrow> b \<le> blockNumber e)) eventLog"

text \<open>
  \<^verbatim>\<open>
  public async getRollupBlocksFrom(rollupId: number, minConfirmations: number) {
    const rollupFilter = this.rollupProcessor.filters.RollupProcessed(rollupId);
    const [rollupEvent] = await this.rollupProcessor.queryFilter(rollupFilter);
    if (!rollupEvent) {
      return [];
    }
    const filter = this.rollupProcessor.filters.RollupProcessed();
    const rollupEvents = await this.rollupProcessor.queryFilter(filter, rollupEvent.blockNumber);
    const txs = await Promise.all(rollupEvents.map(event => event.getTransaction()));
    return txs.filter(tx => tx.confirmations >= minConfirmations).map(tx => this.decodeBlock(tx));
  }

  private decodeBlock(tx: TransactionResponse): Block {
    const rollupAbi = new ethers.utils.Interface(RollupABI);
    const result = rollupAbi.parseTransaction(tx);
    const rollupProofData = Buffer.from(result.args.proofData.slice(2), 'hex');
    const viewingKeysData = Buffer.from(result.args.viewingKeys.slice(2), 'hex');

    return {
      created: new Date(tx.timestamp! * 1000),
      txHash: Buffer.from(tx.hash.slice(2), 'hex'),
      rollupProofData,
      viewingKeysData,
      rollupId: RollupProofData.getRollupIdFromBuffer(rollupProofData),
      rollupSize: RollupProofData.getRollupSizeFromBuffer(rollupProofData),
    };
  }
  \<close>
  \<open>getRollupIdFromBuffer\<close> and \<open>getRollupSizeFromBuffer\<close> of \<open>RollupProofData\<close> are
  parameters: the class is not among the source files. The block that \<open>decodeBlock\<close>
  returns is \<open>RollupBlock\<close> here, its \<open>rollupId\<close> and \<open>rollupSize\<close> the fields
  \<open>blockRollupId\<close> and \<open>blockRollupSize\<close>, and \<open>created\<close> the date in milliseconds.
\<close>

definition decodeBlock ::
  "(buffer \<Rightarrow> nat) \<Rightarrow> (buffer \<Rightarrow> nat) \<Rightarrow> TransactionResponse \<Rightarrow> RollupBlock" where
  "decodeBlock getRollupIdFromBuffer getRollupSizeFromBuffer tx =
     \<lparr>created = timestamp tx * 1000,
      txHash = hash tx,
      rollupProofData = argProofData tx,
      viewingKeysData = argViewingKeys tx,
      blockRollupId = getRollupIdFromBuffer (argProofData tx),
      blockRollupSize = getRollupSizeFromBuffer (argProofData tx)\<rparr>"

definition getRollupBlocksFrom ::
  "(buffer \<Rightarrow> nat) \<Rightarrow> (buffer \<Rightarrow> nat) \<Rightarrow> Event list \<Rightarrow> nat \<Rightarrow> nat \<Rightarrow> RollupBlock list" where
  "getRollupBlocksFrom getRollupIdFromBuffer getRollupSizeFromBuffer eventLog fromRollupId minConfirmations =
     (case queryFilter eventLog (Some fromRollupId) None of
        [] \<Rightarrow> []
      | rollupEvent # _ \<Rightarrow>
          (let rollupEvents = queryFilter eventLog None (Some (blockNumber rollupEvent));
               transactions = map getTransaction rollupEvents
           in map (decodeBlock getRollupIdFromBuffer getRollupSizeFromBuffer)
                (filter (\<lambda>tx. confirmations tx \<ge> minConfirmations) transactions)))"

text \<open>
  A concrete log: rollups 0, 1 and 2 processed in blocks 10, 12 and 15 with 9, 7 and 2
  confirmations, and an event of another kind in block 13.
\<close>

definition exampleEvent :: "EventName \<Rightarrow> nat \<Rightarrow> nat \<Rightarrow> nat \<Rightarrow> Event" where
  "exampleEvent name rid blk conf =
     \<lparr>eventName = name, eventRollupId = rid, blockNumber = blk,
      getTransaction = \<lparr>hash = [of_nat rid], timestamp = 100 + blk, confirmations = conf,
                        argProofData = [of_nat rid, 7], argViewingKeys = []\<rparr>\<rparr>"

definition exampleLog :: "Event list" where
  "exampleLog =
     [exampleEvent RollupProcessed 0 10 9, exampleEvent RollupProcessed 1 12 7,
      exampleEvent OtherEvent 0 13 6, exampleEvent RollupProcessed 2 15 2]"

section \<open>Signature marshalling: proofs\<close>

lemma padSignature_65:
  assumes "length sg = 65"
  shows "padSignature sg = take 64 sg @ replicate 31 0 @ [sg ! 64]"
proof -
  have d: "drop 64 sg = [sg ! 64]"
  proof -
    have "sg ! 64 # drop (Suc 64) sg = drop 64 sg"
      using assms by (intro Cons_nth_drop_Suc) simp
    moreover have "drop (Suc 64) sg = []" using assms by simp
    ultimately show ?thesis by simp
  qed
  show ?thesis
    using assms d
    by (simp add: padSignature_def slice_from_def slice_def slice_index_def alloc_def)
qed

lemma length_padSignature_65: "length sg = 65 \<Longrightarrow> length (padSignature sg) = 96"
  by (simp add: padSignature_65)

lemma length_concat_chunks:
  "(\<forall>c \<in> set cs. length c = n) \<Longrightarrow> length (concat cs) = length cs * n"
  by (induction cs) auto

lemma chunk_of_concat:
  "(\<forall>c \<in> set cs. length c = n) \<Longrightarrow> i < length cs \<Longrightarrow>
     take n (drop (n * i) (concat cs)) = cs ! i"
proof (induction cs arbitrary: i)
  case Nil
  then show ?case by simp
next
  case (Cons c cs)
  show ?case
  proof (cases i)
    case 0
    with Cons.prems show ?thesis by simp
  next
    case (Suc j)
    with Cons.prems have "take n (drop (n * j) (concat cs)) = cs ! j"
      by (intro Cons.IH) auto
    moreover have "length c = n" using Cons.prems by simp
    ultimately show ?thesis using Suc by (simp add: add.commute)
  qed
qed

text \<open>
  C5. For every list of 65-byte compact signatures, the marshalled buffer has
  \<open>96\<close> bytes per signature, and the \<open>i\<close>-th 96-byte record carries the first 64
  bytes of the \<open>i\<close>-th signature (r and s), then zero bytes at positions 64 to 94,
  then the signature's byte 64 (v) at position 95.
\<close>

theorem solidityFormatSignatures_layout:
  assumes "\<forall>sg \<in> set signatures. length sg = 65"
  shows "length (solidityFormatSignatures signatures) = length signatures * 96
       \<and> (\<forall>i < length signatures.
            take 64 (record_at (solidityFormatSignatures signatures) i)
              = take 64 (signatures ! i)
          \<and> (\<forall>j. 64 \<le> j \<and> j < 95 \<longrightarrow>
                record_at (solidityFormatSignatures signatures) i ! j = 0)
          \<and> record_at (solidityFormatSignatures signatures) i ! 95
              = signatures ! i ! 64
          \<and> record_at (solidityFormatSignatures signatures) i
              = take 64 (signatures ! i) @ replicate 31 0 @ [signatures ! i ! 64])"
proof -
  let ?ps = "map padSignature signatures"
  have all96: "\<forall>c \<in> set ?ps. length c = 96"
    using assms by (auto simp: length_padSignature_65)
  have len: "length (solidityFormatSignatures signatures) = length signatures * 96"
    using length_concat_chunks [OF all96] by (simp add: solidityFormatSignatures_def)
  have rec: "record_at (solidityFormatSignatures signatures) i
               = take 64 (signatures ! i) @ replicate 31 0 @ [signatures ! i ! 64]"
    if "i < length signatures" for i
  proof -
    have "record_at (solidityFormatSignatures signatures) i = ?ps ! i"
      using chunk_of_concat [OF all96, of i] that
      by (simp add: record_at_def solidityFormatSignatures_def)
    also have "\<dots> = padSignature (signatures ! i)" using that by simp
    also have "\<dots> = take 64 (signatures ! i) @ replicate 31 0 @ [signatures ! i ! 64]"
      using assms that by (intro padSignature_65) auto
    finally show ?thesis .
  qed
  have fields: "take 64 (record_at (solidityFormatSignatures signatures) i)
              = take 64 (signatures ! i)
          \<and> (\<forall>j. 64 \<le> j \<and> j < 95 \<longrightarrow>
                record_at (solidityFormatSignatures signatures) i ! j = 0)
          \<and> record_at (solidityFormatSignatures signatures) i ! 95
              = signatures ! i ! 64"
    if "i < length signatures" for i
  proof -
    have l: "length (signatures ! i) = 65" using assms that by auto
    then have l64: "length (take 64 (signatures ! i)) = 64" by simp
    show ?thesis
      unfolding rec [OF that]
      using l64 by (auto simp: nth_append)
  qed
  show ?thesis using len rec fields by blast
qed

theorem solidityFormatSignatures_layout_witness:
  "length (replicate 32 170 @ replicate 32 187 @ [27 :: byte]) = 65
   \<and> length (solidityFormatSignatures [replicate 32 170 @ replicate 32 187 @ [27]]) = 96
   \<and> record_at (solidityFormatSignatures [replicate 32 170 @ replicate 32 187 @ [27]]) 0
       = replicate 32 170 @ replicate 32 187 @ replicate 31 0 @ [27]"
  using solidityFormatSignatures_layout [of "[replicate 32 170 @ replicate 32 187 @ [27]]"]
  by (simp add: nth_append)

section \<open>FeeCalculator: proofs\<close>


lemma bigint_div_nonneg: "0 \<le> a \<Longrightarrow> 0 \<le> b \<Longrightarrow> bigint_div a b = a div b"
  by (cases "a = 0"; cases "b = 0") (simp_all add: bigint_div_def sgn_if)

lemma bigint_div_neg_pos: "a < 0 \<Longrightarrow> 0 < b \<Longrightarrow> bigint_div a b = - ((- a) div b)"
  by (simp add: bigint_div_def sgn_if)

lemma bigint_div_mono:
  assumes "0 \<le> c" and "a \<le> b"
  shows "bigint_div a c \<le> bigint_div b c"
proof (cases "c = 0")
  case True
  then show ?thesis by (simp add: bigint_div_def)
next
  case False
  with assms have c: "0 < c" by simp
  consider "0 \<le> a" | "a < 0" "0 \<le> b" | "a < 0" "b < 0" by linarith
  then show ?thesis
  proof cases
    case 1
    with assms c show ?thesis
      by (simp add: bigint_div_nonneg zdiv_mono1)
  next
    case 2
    have "bigint_div a c \<le> 0"
      using 2 c by (simp add: bigint_div_neg_pos pos_imp_zdiv_nonneg_iff)
    moreover have "0 \<le> bigint_div b c"
      using 2 c by (simp add: bigint_div_nonneg pos_imp_zdiv_nonneg_iff)
    ultimately show ?thesis by simp
  next
    case 3
    have "(- b) div c \<le> (- a) div c"
      using assms c by (intro zdiv_mono1) simp_all
    with 3 c show ?thesis by (simp add: bigint_div_neg_pos)
  qed
qed

lemma bigint_div_ge0: "0 \<le> a \<Longrightarrow> 0 \<le> b \<Longrightarrow> 0 \<le> bigint_div a b"
  by (simp add: bigint_div_nonneg pos_imp_zdiv_nonneg_iff div_int_pos_iff)

lemma bigint_div_exact:
  assumes "b dvd a" and "b \<noteq> 0"
  shows "(of_int (bigint_div a b) :: rat) = of_int a / of_int b"
proof -
  from assms obtain k where k: "a = b * k" by (auto simp: dvd_def)
  have "bigint_div (b * k) b = k"
    using assms(2) by (simp add: bigint_div_def abs_mult sgn_mult) (simp add: sgn_if abs_if)
  then show ?thesis using k assms(2) by simp
qed

lemma foldl_add_sum_list: "foldl (\<lambda>acc surplus. acc + surplus) a xs = a + sum_list (xs :: int list)"
  by (induction xs arbitrary: a) simp_all


lemmas fee_defs =
  computeSurplusRatio_def feeSurplus_def txSurplus_def getFeeForTxDao_def
  getMinTxFee_def getFeeConstant_def getBaseFee_def toEthPrice_def
  toAssetPrice_def applyGasPrice_def at_index_def ETH_def bigint_div_def

lemma applyGasPrice_capped:
  assumes "feeGasPriceMultiplierPct fc = Some pct"
  shows "applyGasPrice fc v =
           Inr (if maxFeeGasPrice fc \<noteq> 0 then spec_apply fc pct v
                else bigint_div (v * getGasPrice (priceTracker fc) * pct) 100)"
  using assms by (simp add: applyGasPrice_def spec_apply_def Let_def min_def)

text \<open>
  C7 (amended). For an asset that is configured: \<open>toAssetPrice\<close> returns 0 when the
  oracle price of the asset is 0. Otherwise, with an integral multiplier percentage, it is
  \<open>apply(gas * 10^decimals) / oraclePrice\<close>, where \<open>apply\<close> is the minimum of the
  specification when \<open>maxFeeGasPrice\<close> is not 0, and the uncapped
  \<open>v * gasPrice * multiplierPct / 100\<close> when \<open>maxFeeGasPrice\<close> is 0.
\<close>

theorem toAssetPrice_formula:
  assumes "at_index (assets fc) a = Some asset"
  shows "(getAssetPrice (priceTracker fc) a = 0 \<longrightarrow> toAssetPrice fc a gas = Inr 0)
       \<and> (getAssetPrice (priceTracker fc) a \<noteq> 0 \<and> feeGasPriceMultiplierPct fc = Some pct
             \<and> maxFeeGasPrice fc \<noteq> 0 \<longrightarrow>
            toAssetPrice fc a gas = Inr (spec_toAssetPrice fc pct (decimals asset) a gas))
       \<and> (getAssetPrice (priceTracker fc) a \<noteq> 0 \<and> feeGasPriceMultiplierPct fc = Some pct
             \<and> maxFeeGasPrice fc = 0 \<longrightarrow>
            toAssetPrice fc a gas =
              Inr (bigint_div
                    (bigint_div (gas * 10 ^ decimals asset * getGasPrice (priceTracker fc) * pct) 100)
                    (getAssetPrice (priceTracker fc) a)))"
  using assms
  by (auto simp: toAssetPrice_def spec_toAssetPrice_def applyGasPrice_capped)

theorem toAssetPrice_formula_witness:
  "at_index (assets exampleFeeCalculator) ETH
     = Some \<lparr>decimals = 18, gasConstants = [0, 0, 0, 0, 0, 0, 0]\<rparr>
   \<and> feeGasPriceMultiplierPct exampleFeeCalculator = Some 100
   \<and> maxFeeGasPrice exampleFeeCalculator = 0
   \<and> toAssetPrice exampleFeeCalculator ETH 10000 = Inr 20000
   \<and> toAssetPrice (exampleFeeCalculator\<lparr>maxFeeGasPrice := 1\<rparr>) ETH 10000 = Inr 10000
   \<and> spec_toAssetPrice (exampleFeeCalculator\<lparr>maxFeeGasPrice := 1\<rparr>) 100 18 ETH 10000 = 10000
   \<and> toAssetPrice
         (exampleFeeCalculator\<lparr>priceTracker := \<lparr>getAssetPrice = (\<lambda>_. 0), getGasPrice = 2\<rparr>\<rparr>)
         ETH 10000 = Inr 0"
proof -
  let ?asset = "\<lparr>decimals = 18, gasConstants = [0, 0, 0, 0, 0, 0, 0]\<rparr>"
  let ?capped = "exampleFeeCalculator\<lparr>maxFeeGasPrice := 1\<rparr>"
  let ?unpriced = "exampleFeeCalculator\<lparr>priceTracker := \<lparr>getAssetPrice = (\<lambda>_. 0), getGasPrice = 2\<rparr>\<rparr>"
  have a: "at_index (assets exampleFeeCalculator) ETH = Some ?asset"
    "at_index (assets ?capped) ETH = Some ?asset" "at_index (assets ?unpriced) ETH = Some ?asset"
    by (simp_all add: exampleFeeCalculator_def at_index_def ETH_def)
  have p: "feeGasPriceMultiplierPct exampleFeeCalculator = Some 100"
    "maxFeeGasPrice exampleFeeCalculator = 0"
    by (simp_all add: exampleFeeCalculator_def)
  have r1: "toAssetPrice exampleFeeCalculator ETH 10000 = Inr 20000"
    using toAssetPrice_formula [OF a(1), of 10000 100] p
    by (simp add: exampleFeeCalculator_def bigint_div_def)
  have sp: "spec_toAssetPrice ?capped 100 18 ETH 10000 = 10000"
    by (simp add: exampleFeeCalculator_def spec_toAssetPrice_def spec_apply_def bigint_div_def)
  have r2: "toAssetPrice ?capped ETH 10000 = Inr 10000"
    using toAssetPrice_formula [OF a(2), of 10000 100] sp
    by (simp add: exampleFeeCalculator_def)
  have r3: "toAssetPrice ?unpriced ETH 10000 = Inr 0"
    using toAssetPrice_formula [OF a(3), of 10000] by simp
  show ?thesis using a(1) p r1 r2 sp r3 by simp
qed

text \<open>
  C7 as stated fails when \<open>maxFeeGasPrice\<close> is 0: the code charges 20000 for 10000 gas
  where the minimum of the specification is 0.
\<close>

theorem toAssetPrice_uncapped_counterexample:
  "toAssetPrice exampleFeeCalculator ETH 10000 = Inr 20000
   \<and> spec_toAssetPrice exampleFeeCalculator 100 18 ETH 10000 = 0"
  by (simp add: exampleFeeCalculator_def toAssetPrice_def spec_toAssetPrice_def spec_apply_def
      applyGasPrice_def at_index_def ETH_def bigint_div_def)


section \<open>Doubles: rounding to nearest\<close>

lemma floor_rat_numeral: "\<lfloor>(numeral a :: rat) / numeral b\<rfloor> = numeral a div numeral b"
  by (metis floor_divide_of_int_eq of_int_numeral)

lemma ceiling_rat_numeral: "\<lceil>(numeral a :: rat) / numeral b\<rceil> = - (- numeral a div numeral b)"
  using floor_divide_of_int_eq [of "- numeral a" "numeral b", where ?'a = rat]
  by (simp add: ceiling_def)

lemma bitLength_simps:
  "bitLength 0 = 0" "bitLength 1 = 1"
  "bitLength (numeral k) = Suc (bitLength (numeral k div 2))"
  by (simp_all add: bitLength.simps)

lemmas double_eval = toNumber_def roundDouble_def roundMagnitude_def
  floor_rat_numeral ceiling_rat_numeral bitLength_simps exponent_def ulp_def
  roundTiesToEven_def Let_def power_int_minus_divide

lemma bitLength_pos: "0 < n \<Longrightarrow> 0 < bitLength n"
  by (subst bitLength.simps) simp

lemma bitLength_bounds:
  "0 < n \<Longrightarrow> 2 ^ (bitLength n - 1) \<le> n \<and> n < 2 ^ bitLength n"
proof (induction n rule: bitLength.induct)
  case (1 n)
  show ?case
  proof (cases "n = 1")
    case True
    then show ?thesis by (simp add: bitLength_simps)
  next
    case False
    with "1.prems" have m: "0 < n div 2" by simp
    from "1.prems" have b: "bitLength n = Suc (bitLength (n div 2))"
      by (subst bitLength.simps) simp
    from "1.prems" have "\<not> n \<le> 0" by simp
    from "1.IH" [OF this m]
    have lo: "2 ^ (bitLength (n div 2) - 1) \<le> n div 2"
      and hi: "n div 2 < 2 ^ bitLength (n div 2)" by simp_all
    from bitLength_pos [OF m] obtain j where j: "bitLength (n div 2) = Suc j"
      by (cases "bitLength (n div 2)") simp_all
    have "2 * (n div 2) \<le> n" "n < 2 * (n div 2) + 2" by presburger+
    with lo hi show ?thesis unfolding b j by simp
  qed
qed

lemma exponent_bounds:
  assumes "0 < x"
  shows "2 powi exponent x \<le> x" and "x < 2 powi (exponent x + 1)"
proof -
  have "2 powi exponent x \<le> x \<and> x < 2 powi (exponent x + 1)"
  proof (cases "1 \<le> x")
    case True
    then have n: "0 < \<lfloor>x\<rfloor>" by simp
    define k where "k = bitLength \<lfloor>x\<rfloor>"
    from bitLength_pos [OF n] obtain j where j: "k = Suc j"
      unfolding k_def by (cases "bitLength \<lfloor>x\<rfloor>") simp_all
    from bitLength_bounds [OF n]
    have lo: "2 ^ j \<le> \<lfloor>x\<rfloor>" and hi: "\<lfloor>x\<rfloor> < 2 ^ Suc j"
      unfolding k_def [symmetric] j by simp_all
    have e: "exponent x = int j" using True by (simp add: exponent_def k_def [symmetric] j)
    have "(2::rat) ^ j = of_int (2 ^ j)" by simp
    also have "\<dots> \<le> of_int \<lfloor>x\<rfloor>" using lo by (simp only: of_int_le_iff)
    also have "\<dots> \<le> x" by simp
    finally have a: "(2::rat) ^ j \<le> x" .
    from hi have "\<lfloor>x\<rfloor> + 1 \<le> 2 ^ Suc j" by simp
    then have "(of_int (\<lfloor>x\<rfloor> + 1) :: rat) \<le> of_int (2 ^ Suc j)" by (simp only: of_int_le_iff)
    moreover have "x < of_int (\<lfloor>x\<rfloor> + 1)" by linarith
    ultimately have b: "x < 2 ^ Suc j" by simp
    have "int j + 1 = int (Suc j)" by simp
    then have "(2::rat) powi (int j + 1) = 2 ^ Suc j" by (simp only: power_int_of_nat)
    with a b show ?thesis unfolding e by simp
  next
    case False
    with assms have x1: "x < 1" by simp
    define y where "y = 1 / x"
    from assms x1 have y1: "1 < y" by (simp add: y_def)
    then have m: "0 < \<lceil>y\<rceil> - 1" by simp
    define k where "k = bitLength (\<lceil>y\<rceil> - 1)"
    from bitLength_pos [OF m] obtain j where j: "k = Suc j"
      unfolding k_def by (cases "bitLength (\<lceil>y\<rceil> - 1)") simp_all
    from bitLength_bounds [OF m]
    have lo: "2 ^ j \<le> \<lceil>y\<rceil> - 1" and hi: "\<lceil>y\<rceil> - 1 < 2 ^ Suc j"
      unfolding k_def [symmetric] j by simp_all
    have e: "exponent x = - int (Suc j)"
      using False by (simp add: exponent_def y_def [symmetric] k_def [symmetric] j)
    from hi have c: "\<lceil>y\<rceil> \<le> 2 ^ Suc j" by simp
    have "y \<le> of_int \<lceil>y\<rceil>" by simp
    also have "\<dots> \<le> of_int (2 ^ Suc j)" using c by (simp only: of_int_le_iff)
    also have "\<dots> = 2 ^ Suc j" by simp
    finally have yh: "y \<le> 2 ^ Suc j" .
    have "(2::rat) ^ j = of_int (2 ^ j)" by simp
    also have "\<dots> \<le> of_int (\<lceil>y\<rceil> - 1)" using lo by (simp only: of_int_le_iff)
    also have "\<dots> < y" by linarith
    finally have yl: "2 ^ j < y" .
    have x: "x = 1 / y" using assms by (simp add: y_def)
    have a: "1 / 2 ^ Suc j \<le> x"
      unfolding x using yh y1 by (intro divide_left_mono) simp_all
    have b: "x < 1 / 2 ^ j"
      unfolding x using yl y1 by (intro divide_strict_left_mono) simp_all
    have p1: "(2::rat) powi (- int (Suc j)) = 1 / 2 ^ Suc j"
      by (simp only: power_int_minus_divide power_int_of_nat)
    have "- int (Suc j) + 1 = - int j" by simp
    then have p2: "(2::rat) powi (- int (Suc j) + 1) = 1 / 2 ^ j"
      by (simp only: power_int_minus_divide power_int_of_nat)
    from a b show ?thesis unfolding e p1 p2 by simp
  qed
  then show "2 powi exponent x \<le> x" and "x < 2 powi (exponent x + 1)" by simp_all
qed

lemma exponent_mono:
  assumes "0 < x" and "x \<le> y"
  shows "exponent x \<le> exponent y"
proof (rule ccontr)
  assume "\<not> exponent x \<le> exponent y"
  then have "exponent y + 1 \<le> exponent x" by simp
  then have "(2::rat) powi (exponent y + 1) \<le> 2 powi exponent x"
    by (intro power_int_increasing) simp_all
  moreover have "y < 2 powi (exponent y + 1)" using assms by (intro exponent_bounds) simp
  moreover have "2 powi exponent x \<le> x" using assms by (intro exponent_bounds)
  ultimately show False using assms(2) by simp
qed

lemma roundTiesToEven_bounds:
  "\<lfloor>x\<rfloor> \<le> roundTiesToEven x" "roundTiesToEven x \<le> \<lfloor>x\<rfloor> + 1"
  by (simp_all add: roundTiesToEven_def Let_def)

lemma roundTiesToEven_of_int [simp]: "roundTiesToEven (of_int k) = k"
  by (simp add: roundTiesToEven_def Let_def)

lemma roundTiesToEven_mono:
  assumes "x \<le> y"
  shows "roundTiesToEven x \<le> roundTiesToEven y"
proof (cases "\<lfloor>x\<rfloor> = \<lfloor>y\<rfloor>")
  case True
  with assms show ?thesis by (auto simp: roundTiesToEven_def Let_def)
next
  case False
  with assms have "\<lfloor>x\<rfloor> + 1 \<le> \<lfloor>y\<rfloor>" using floor_mono [OF assms] by simp
  with roundTiesToEven_bounds(2) [of x] roundTiesToEven_bounds(1) [of y]
  show ?thesis by simp
qed

lemma roundTiesToEven_error: "\<bar>of_int (roundTiesToEven x) - x\<bar> \<le> 1 / 2"
proof -
  define d where "d = x - of_int \<lfloor>x\<rfloor>"
  have d: "0 \<le> d" "d < 1" unfolding d_def by linarith+
  have "of_int \<lfloor>x\<rfloor> - x = - d" "of_int (\<lfloor>x\<rfloor> + 1) - x = 1 - d"
    by (simp_all add: d_def)
  with d show ?thesis
    unfolding roundTiesToEven_def Let_def d_def [symmetric]
    by (simp add: abs_if)
qed

lemma ulp_pos: "0 < ulp x"
  by (simp add: ulp_def)


lemma roundMagnitude_le_grid:
  assumes "x \<le> of_int k * ulp x"
  shows "roundMagnitude x \<le> of_int k * ulp x"
proof -
  have "x / ulp x \<le> of_int k" using assms ulp_pos [of x] by (simp add: pos_divide_le_eq)
  then have "roundTiesToEven (x / ulp x) \<le> roundTiesToEven (of_int k)"
    by (rule roundTiesToEven_mono)
  then have "(of_int (roundTiesToEven (x / ulp x)) :: rat) \<le> of_int k" by simp
  then show ?thesis
    unfolding roundMagnitude_def using ulp_pos [of x] by (intro mult_right_mono) simp_all
qed

lemma roundMagnitude_ge_grid:
  assumes "of_int k * ulp x \<le> x"
  shows "of_int k * ulp x \<le> roundMagnitude x"
proof -
  have "of_int k \<le> x / ulp x" using assms ulp_pos [of x] by (simp add: pos_le_divide_eq)
  then have "roundTiesToEven (of_int k) \<le> roundTiesToEven (x / ulp x)"
    by (rule roundTiesToEven_mono)
  then have "(of_int k :: rat) \<le> of_int (roundTiesToEven (x / ulp x))" by simp
  then show ?thesis
    unfolding roundMagnitude_def using ulp_pos [of x] by (intro mult_right_mono) simp_all
qed

lemma grid_top: "of_int (2 ^ 53) * (2::rat) powi (e - 52) = 2 powi (e + 1)"
proof -
  have "e + 1 = 53 + (e - 52)" by simp
  then have "(2::rat) powi (e + 1) = 2 powi (53 + (e - 52))" by (simp only:)
  also have "\<dots> = 2 powi 53 * 2 powi (e - 52)" by (rule power_int_add) simp
  finally show ?thesis by simp
qed

lemma grid_bottom: "of_int (2 ^ 52) * (2::rat) powi (e - 52) = 2 powi e"
proof -
  have "e = 52 + (e - 52)" by simp
  then have "(2::rat) powi e = 2 powi (52 + (e - 52))" by (simp only:)
  also have "\<dots> = 2 powi 52 * 2 powi (e - 52)" by (rule power_int_add) simp
  finally show ?thesis by simp
qed

lemma roundMagnitude_mono:
  assumes "0 < x" and "x \<le> y"
  shows "roundMagnitude x \<le> roundMagnitude y"
proof -
  define ex where "ex = max (exponent x) (- 1022)"
  define ey where "ey = max (exponent y) (- 1022)"
  have ux: "ulp x = 2 powi (ex - 52)" and uy: "ulp y = 2 powi (ey - 52)"
    by (simp_all add: ulp_def ex_def ey_def)
  from assms have y: "0 < y" by simp
  have le: "ex \<le> ey" using exponent_mono [OF assms] by (simp add: ex_def ey_def)
  show ?thesis
  proof (cases "ex = ey")
    case True
    then have u: "ulp y = ulp x" by (simp add: ux uy)
    have "x / ulp x \<le> y / ulp x" using assms(2) ulp_pos [of x] by (simp add: divide_right_mono)
    then have "roundTiesToEven (x / ulp x) \<le> roundTiesToEven (y / ulp x)"
      by (rule roundTiesToEven_mono)
    then have "(of_int (roundTiesToEven (x / ulp x)) :: rat) \<le> of_int (roundTiesToEven (y / ulp x))"
      by simp
    then show ?thesis
      unfolding roundMagnitude_def u using ulp_pos [of x] by (intro mult_right_mono) simp_all
  next
    case False
    with le have lt: "ex + 1 \<le> ey" by simp
    then have ey: "ey = exponent y" by (simp add: ex_def ey_def max_def split: if_splits)
    have "x < 2 powi (exponent x + 1)" by (rule exponent_bounds(2) [OF assms(1)])
    also have "\<dots> \<le> 2 powi (ex + 1)" by (intro power_int_increasing) (simp_all add: ex_def)
    finally have "x \<le> of_int (2 ^ 53) * ulp x" unfolding ux grid_top by simp
    then have "roundMagnitude x \<le> of_int (2 ^ 53) * ulp x" by (rule roundMagnitude_le_grid)
    then have a: "roundMagnitude x \<le> 2 powi (ex + 1)" unfolding ux grid_top .
    have "2 powi ey \<le> y" unfolding ey by (rule exponent_bounds(1) [OF y])
    then have "of_int (2 ^ 52) * ulp y \<le> y" unfolding uy grid_bottom .
    then have "of_int (2 ^ 52) * ulp y \<le> roundMagnitude y" by (rule roundMagnitude_ge_grid)
    then have b: "2 powi ey \<le> roundMagnitude y" unfolding uy grid_bottom .
    have "(2::rat) powi (ex + 1) \<le> 2 powi ey" using lt by (intro power_int_increasing) simp_all
    with a b show ?thesis by simp
  qed
qed

lemma roundMagnitude_nonneg: "0 < x \<Longrightarrow> 0 \<le> roundMagnitude x"
  using roundMagnitude_ge_grid [of 0 x] by simp

lemma roundDouble_nonneg: "0 \<le> x \<Longrightarrow> 0 \<le> roundDouble x"
  by (simp add: roundDouble_def roundMagnitude_nonneg)

lemma roundDouble_minus: "roundDouble (- x) = - roundDouble x"
  by (simp add: roundDouble_def sgn_minus)

lemma roundDouble_nonpos: "x \<le> 0 \<Longrightarrow> roundDouble x \<le> 0"
  using roundDouble_nonneg [of "- x"] by (simp add: roundDouble_minus)

lemma roundDouble_mono:
  assumes "x \<le> y"
  shows "roundDouble x \<le> roundDouble y"
proof -
  consider "0 < x" | "x \<le> 0" "0 \<le> y" | "y < 0" by linarith
  then show ?thesis
  proof cases
    case 1
    with assms have "0 < y" by simp
    with 1 roundMagnitude_mono [OF 1 assms] show ?thesis by (simp add: roundDouble_def)
  next
    case 2
    with roundDouble_nonpos [of x] roundDouble_nonneg [of y] show ?thesis by simp
  next
    case 3
    with assms have x: "x < 0" by simp
    from 3 assms have "roundMagnitude (- y) \<le> roundMagnitude (- x)"
      by (intro roundMagnitude_mono) simp_all
    with 3 x show ?thesis by (simp add: roundDouble_def)
  qed
qed

lemma roundMagnitude_error:
  "\<bar>roundMagnitude x - x\<bar> \<le> ulp x / 2"
proof -
  have u: "0 < ulp x" by (rule ulp_pos)
  have "roundMagnitude x - x = (of_int (roundTiesToEven (x / ulp x)) - x / ulp x) * ulp x"
    using u by (simp add: roundMagnitude_def algebra_simps)
  then have "\<bar>roundMagnitude x - x\<bar>
      = \<bar>of_int (roundTiesToEven (x / ulp x)) - x / ulp x\<bar> * ulp x"
    using u by (simp add: abs_mult)
  also have "\<dots> \<le> 1 / 2 * ulp x"
    using u roundTiesToEven_error [of "x / ulp x"] by (intro mult_right_mono) simp_all
  finally show ?thesis by simp
qed

lemma roundDouble_values:
  "roundDouble 0 = 0" "roundDouble 1 = 1" "roundDouble (2 ^ 53) = 2 ^ 53"
  "roundDouble (2 ^ 54) = 2 ^ 54"
  by (simp_all add: double_eval)

lemma roundDouble_error_unit:
  assumes "0 \<le> x" and "x \<le> 1"
  shows "\<bar>roundDouble x - x\<bar> \<le> 1 / 2 ^ 54"
proof -
  consider "x = 0" | "x = 1" | "0 < x" "x < 1" using assms by linarith
  then show ?thesis
  proof cases
    case 1
    then show ?thesis by (simp add: roundDouble_values)
  next
    case 2
    then show ?thesis by (simp add: roundDouble_values)
  next
    case 3
    have "exponent x < 0"
    proof (rule ccontr)
      assume "\<not> exponent x < 0"
      then have "(2::rat) powi 0 \<le> 2 powi exponent x"
        by (intro power_int_increasing) simp_all
      with exponent_bounds(1) [OF 3(1)] 3(2) show False by simp
    qed
    then have "ulp x \<le> 2 powi (- 53)"
      unfolding ulp_def by (intro power_int_increasing) simp_all
    then have "ulp x / 2 \<le> 1 / 2 ^ 54" by (simp add: power_int_minus_divide)
    with roundMagnitude_error [of x] 3 show ?thesis by (simp add: roundDouble_def)
  qed
qed

lemma roundDouble_ratio_error:
  "\<bar>min 1 (max 0 (roundDouble (1 - roundDouble x))) - min 1 (max 0 (1 - x))\<bar> \<le> 1 / 2 ^ 53"
proof -
  consider "1 < x" | "x < 0" | "0 \<le> x" "x \<le> 1" by linarith
  then show ?thesis
  proof cases
    case 1
    then have "1 \<le> roundDouble x" using roundDouble_mono [of 1 x] by (simp add: roundDouble_values)
    then have "roundDouble (1 - roundDouble x) \<le> 0" by (intro roundDouble_nonpos) simp
    with 1 show ?thesis by simp
  next
    case 2
    then have "roundDouble x \<le> 0" by (intro roundDouble_nonpos) simp
    then have "1 \<le> roundDouble (1 - roundDouble x)"
      using roundDouble_mono [of 1 "1 - roundDouble x"] by (simp add: roundDouble_values)
    with 2 show ?thesis by simp
  next
    case 3
    define x' where "x' = roundDouble x"
    have x0: "0 \<le> x'" unfolding x'_def using 3 by (intro roundDouble_nonneg)
    have x1: "x' \<le> 1"
      unfolding x'_def using roundDouble_mono [OF 3(2)] by (simp add: roundDouble_values)
    have e1: "\<bar>x' - x\<bar> \<le> 1 / 2 ^ 54" unfolding x'_def by (rule roundDouble_error_unit [OF 3])
    define y' where "y' = roundDouble (1 - x')"
    have y0: "0 \<le> y'" unfolding y'_def using x1 by (intro roundDouble_nonneg) simp
    have y1: "y' \<le> 1"
      unfolding y'_def using roundDouble_mono [of "1 - x'" 1] x0 by (simp add: roundDouble_values)
    have e2: "\<bar>y' - (1 - x')\<bar> \<le> 1 / 2 ^ 54"
      unfolding y'_def using x0 x1 by (intro roundDouble_error_unit) simp_all
    have "\<bar>y' - (1 - x)\<bar> \<le> 1 / 2 ^ 54 + 1 / 2 ^ 54" using e1 e2 by linarith
    then have e: "\<bar>y' - (1 - x)\<bar> \<le> 1 / 2 ^ 53" by simp
    have c1: "min 1 (max 0 y') = y'" using y0 y1 by simp
    have c2: "min 1 (max 0 (1 - x)) = 1 - x" using 3 by simp
    show ?thesis
      unfolding y'_def [symmetric] x'_def [symmetric] c1 c2 by (rule e)
  qed
qed


lemma roundMagnitude_exact:
  assumes "x = of_int j * ulp x"
  shows "roundMagnitude x = x"
proof -
  have "ulp x \<noteq> 0" using ulp_pos [of x] by simp
  with assms have "x / ulp x = of_int j" by (metis nonzero_mult_div_cancel_right)
  then have "roundMagnitude x = of_int j * ulp x" by (simp add: roundMagnitude_def)
  with assms show ?thesis by simp
qed

lemma exponent_less:
  assumes "0 < x" and "x < 2 powi (e + 1)"
  shows "exponent x \<le> e"
proof (rule ccontr)
  assume "\<not> exponent x \<le> e"
  then have "e + 1 \<le> exponent x" by simp
  then have "(2::rat) powi (e + 1) \<le> 2 powi exponent x"
    by (intro power_int_increasing) simp_all
  with exponent_bounds(1) [OF assms(1)] assms(2) show False by simp
qed

lemma exponent_greater:
  assumes "0 < x" and "2 powi e \<le> x"
  shows "e \<le> exponent x"
proof (rule ccontr)
  assume "\<not> e \<le> exponent x"
  then have "exponent x + 1 \<le> e" by simp
  then have "(2::rat) powi (exponent x + 1) \<le> 2 powi e"
    by (intro power_int_increasing) simp_all
  with exponent_bounds(2) [OF assms(1)] assms(2) show False by simp
qed

lemma roundMagnitude_idempotent:
  assumes "0 < x" and "0 < roundMagnitude x"
  shows "roundMagnitude (roundMagnitude x) = roundMagnitude x"
proof -
  define ex where "ex = max (exponent x) (- 1022)"
  define r where "r = roundMagnitude x"
  have ux: "ulp x = 2 powi (ex - 52)" by (simp add: ulp_def ex_def)
  have r0: "0 < r" using assms(2) by (simp add: r_def)
  have r: "r = of_int (roundTiesToEven (x / ulp x)) * ulp x" by (simp add: r_def roundMagnitude_def)
  have "x < 2 powi (exponent x + 1)" by (rule exponent_bounds(2) [OF assms(1)])
  also have "\<dots> \<le> 2 powi (ex + 1)" by (intro power_int_increasing) (simp_all add: ex_def)
  finally have "x \<le> of_int (2 ^ 53) * ulp x" unfolding ux grid_top by simp
  then have "roundMagnitude x \<le> of_int (2 ^ 53) * ulp x" by (rule roundMagnitude_le_grid)
  then have top: "r \<le> 2 powi (ex + 1)" unfolding ux grid_top r_def .
  show ?thesis
  proof (cases "r = 2 powi (ex + 1)")
    case True
    have "(2::rat) powi (ex + 1) < 2 powi (ex + 1 + 1)" by (intro power_int_strict_increasing) simp_all
    with True have "exponent r \<le> ex + 1" using r0 by (intro exponent_less) simp_all
    moreover have "ex + 1 \<le> exponent r" using r0 True by (intro exponent_greater) simp_all
    ultimately have e: "exponent r = ex + 1" by simp
    have "- 1022 \<le> ex" by (simp add: ex_def)
    then have "ulp r = 2 powi (ex + 1 - 52)" by (simp add: ulp_def e)
    then have "r = of_int (2 ^ 52) * ulp r" using True by (simp only: grid_bottom)
    then show ?thesis unfolding r_def [symmetric] by (rule roundMagnitude_exact)
  next
    case False
    with top have lt: "r < 2 powi (ex + 1)" by simp
    have le: "exponent r \<le> ex" using r0 lt by (rule exponent_less)
    have "max (exponent r) (- 1022) = ex"
    proof (cases "ex = - 1022")
      case True
      with le show ?thesis by simp
    next
      case False
      then have ex: "ex = exponent x" by (simp add: ex_def max_def split: if_splits)
      have "2 powi ex \<le> x" unfolding ex by (rule exponent_bounds(1) [OF assms(1)])
      then have "of_int (2 ^ 52) * ulp x \<le> x" unfolding ux grid_bottom .
      then have "of_int (2 ^ 52) * ulp x \<le> roundMagnitude x" by (rule roundMagnitude_ge_grid)
      then have "2 powi ex \<le> r" unfolding ux grid_bottom r_def .
      then have "ex \<le> exponent r" using r0 by (intro exponent_greater)
      moreover have "- 1022 \<le> ex" by (simp add: ex_def)
      ultimately show ?thesis using le by simp
    qed
    then have "ulp r = 2 powi (ex - 52)" by (simp add: ulp_def)
    then have "ulp r = ulp x" by (simp only: ux)
    with r have "r = of_int (roundTiesToEven (x / ulp x)) * ulp r" by simp
    then show ?thesis unfolding r_def [symmetric] by (rule roundMagnitude_exact)
  qed
qed

lemma roundDouble_idempotent: "roundDouble (roundDouble x) = roundDouble x"
proof -
  have pos: "roundDouble (roundDouble y) = roundDouble y" if "0 < y" for y
  proof (cases "roundMagnitude y = 0")
    case True
    with that show ?thesis by (simp add: roundDouble_def)
  next
    case False
    with roundMagnitude_nonneg [OF that] have "0 < roundMagnitude y" by simp
    with that roundMagnitude_idempotent [OF that this] show ?thesis by (simp add: roundDouble_def)
  qed
  consider "x = 0" | "0 < x" | "x < 0" by linarith
  then show ?thesis
  proof cases
    case 1
    then show ?thesis by (simp add: roundDouble_def)
  next
    case 2
    then show ?thesis by (rule pos)
  next
    case 3
    then have "roundDouble (roundDouble (- x)) = roundDouble (- x)" by (intro pos) simp
    then show ?thesis by (simp add: roundDouble_minus)
  qed
qed

lemma roundMagnitude_int_exact:
  assumes "0 < k" and "k \<le> 2 ^ 53"
  shows "roundMagnitude (of_int k) = of_int k"
proof -
  define x :: rat where "x = of_int k"
  have "(of_int k :: rat) \<le> of_int (2 ^ 53)" using assms(2) by (simp only: of_int_le_iff)
  then have x2: "x \<le> 2 ^ 53" by (simp add: x_def)
  have x1: "1 \<le> x" and x0: "0 < x" using assms(1) by (simp_all add: x_def)
  define e where "e = exponent x"
  have e0: "0 \<le> e"
  proof (rule ccontr)
    assume "\<not> 0 \<le> e"
    then have "e + 1 \<le> 0" by simp
    then have "(2::rat) powi (e + 1) \<le> 2 powi 0" by (intro power_int_increasing) simp_all
    with exponent_bounds(2) [OF x0] x1 show False by (simp add: e_def)
  qed
  have e53: "e \<le> 53"
  proof (rule ccontr)
    assume "\<not> e \<le> 53"
    then have "54 \<le> e" by simp
    then have "(2::rat) powi 54 \<le> 2 powi e" by (intro power_int_increasing) simp_all
    with exponent_bounds(1) [OF x0] x2 show False by (simp add: e_def)
  qed
  have u: "ulp x = 2 powi (e - 52)" using e0 by (simp add: ulp_def e_def)
  show ?thesis
  proof (cases "e = 53")
    case True
    have "2 powi 53 \<le> x" using exponent_bounds(1) [OF x0] True by (simp add: e_def)
    with x2 have "x = 2 ^ 53" by simp
    then have "x = of_int (2 ^ 52) * ulp x" unfolding u True by simp
    then show ?thesis unfolding x_def [symmetric] by (rule roundMagnitude_exact)
  next
    case False
    with e53 have le: "e \<le> 52" by simp
    define m where "m = nat (52 - e)"
    have "e - 52 = - int m" using le by (simp add: m_def)
    then have u': "ulp x = 1 / 2 ^ m"
      unfolding u by (simp only: power_int_minus_divide power_int_of_nat)
    have "x = of_int (k * 2 ^ m) * ulp x" unfolding u' by (simp add: x_def)
    then show ?thesis unfolding x_def [symmetric] by (rule roundMagnitude_exact)
  qed
qed

lemma roundDouble_int_exact:
  assumes "\<bar>k\<bar> \<le> 2 ^ 53"
  shows "roundDouble (of_int k) = of_int k"
proof -
  consider "k = 0" | "0 < k" | "k < 0" by linarith
  then show ?thesis
  proof cases
    case 1
    then show ?thesis by (simp add: roundDouble_def)
  next
    case 2
    with assms roundMagnitude_int_exact [of k] show ?thesis by (simp add: roundDouble_def)
  next
    case 3
    with assms roundMagnitude_int_exact [of "- k"] show ?thesis by (simp add: roundDouble_def)
  qed
qed

lemma roundDouble_bounded:
  assumes "\<bar>x\<bar> \<le> 2 ^ 53"
  shows "\<bar>roundDouble x\<bar> \<le> 2 ^ 53"
proof -
  have "x \<le> 2 ^ 53" and "- (2 ^ 53) \<le> x" using assms by linarith+
  then have "roundDouble x \<le> roundDouble (2 ^ 53)" and "roundDouble (- (2 ^ 53)) \<le> roundDouble x"
    by (simp_all only: roundDouble_mono)
  then show ?thesis unfolding roundDouble_minus roundDouble_values by (simp add: abs_le_iff)
qed

lemma toNumber_finite:
  assumes "\<bar>x\<bar> \<le> 2 ^ 54"
  shows "toNumber x = Fin (roundDouble x)"
proof -
  have "x \<le> 2 ^ 54" and "- (2 ^ 54) \<le> x" using assms by linarith+
  then have "roundDouble x \<le> roundDouble (2 ^ 54)" and "roundDouble (- (2 ^ 54)) \<le> roundDouble x"
    by (simp_all only: roundDouble_mono)
  then have "roundDouble x \<le> 2 ^ 54" "- (2 ^ 54) \<le> roundDouble x"
    unfolding roundDouble_minus roundDouble_values by simp_all
  then have "roundDouble x < 2 ^ 1024" "- (2 ^ 1024) < roundDouble x" by simp_all
  then show ?thesis by (simp add: toNumber_def Let_def)
qed

lemma toNumber_mono: "x \<le> y \<Longrightarrow> number_le (toNumber x) (toNumber y)"
  using roundDouble_mono [of x y] by (auto simp: toNumber_def Let_def)

lemma toNumber_not_NaN: "toNumber x \<noteq> NaN"
  by (simp add: toNumber_def Let_def)

lemma Number_exact: "\<bar>k\<bar> \<le> 2 ^ 53 \<Longrightarrow> Number k = Fin (of_int k)"
proof -
  assume k: "\<bar>k\<bar> \<le> 2 ^ 53"
  then have "(of_int \<bar>k\<bar> :: rat) \<le> of_int (2 ^ 53)" by (simp only: of_int_le_iff)
  then have "\<bar>of_int k :: rat\<bar> \<le> 2 ^ 54" by simp
  then show ?thesis by (simp add: Number_def toNumber_finite roundDouble_int_exact [OF k])
qed

lemma Number_mono: "a \<le> b \<Longrightarrow> number_le (Number a) (Number b)"
  by (simp add: Number_def toNumber_mono)

lemma number_le_infinities:
  "x \<noteq> NaN \<Longrightarrow> number_le x PosInf" "x \<noteq> NaN \<Longrightarrow> number_le NegInf x"
  by (cases x; simp)+

lemma number_div_mono:
  assumes "number_le a b" and "0 < n"
  shows "number_le (number_div a n) (number_div b n)"
proof (cases a)
  case a: (Fin p)
  show ?thesis
  proof (cases b)
    case (Fin q)
    with a assms have "p / of_int n \<le> q / of_int n" by (simp add: divide_right_mono)
    with a Fin assms(2) show ?thesis by (simp add: toNumber_mono)
  next
    case PosInf
    with a assms(2) show ?thesis by (simp add: number_le_infinities toNumber_not_NaN)
  next
    case NegInf
    with a assms show ?thesis by simp
  next
    case NaN
    with a assms show ?thesis by simp
  qed
next
  case PosInf
  with assms show ?thesis by (cases b) simp_all
next
  case NegInf
  with assms show ?thesis
    by (cases b) (simp_all add: number_le_infinities toNumber_not_NaN)
next
  case NaN
  with assms show ?thesis by simp
qed

lemma one_minus_antimono:
  assumes "number_le a b"
  shows "number_le (one_minus b) (one_minus a)"
proof (cases a)
  case a: (Fin p)
  show ?thesis
  proof (cases b)
    case (Fin q)
    with a assms show ?thesis by (simp add: toNumber_mono)
  next
    case PosInf
    with a show ?thesis by (simp add: number_le_infinities toNumber_not_NaN)
  next
    case NegInf
    with a assms show ?thesis by simp
  next
    case NaN
    with a assms show ?thesis by simp
  qed
next
  case PosInf
  with assms show ?thesis by (cases b) simp_all
next
  case NegInf
  with assms show ?thesis
    by (cases b) (simp_all add: number_le_infinities toNumber_not_NaN)
next
  case NaN
  with assms show ?thesis by simp
qed

lemma clamp_mono:
  assumes "number_le a b"
  shows "\<exists>r r'. Math_min1 (Math_max0 a) = Fin r \<and> Math_min1 (Math_max0 b) = Fin r' \<and> r \<le> r'"
  using assms by (cases a; cases b) (auto simp: min_def max_def)

lemma number_le_trans: "number_le a b \<Longrightarrow> number_le b c \<Longrightarrow> number_le a c"
  by (cases a; cases b; cases c) auto

lemma number_le_not_NaN: "number_le a b \<Longrightarrow> a \<noteq> NaN \<and> b \<noteq> NaN"
  by (cases a; cases b) auto

lemma clamp_range:
  "a \<noteq> NaN \<Longrightarrow> \<exists>r. Math_min1 (Math_max0 a) = Fin r \<and> 0 \<le> r \<and> r \<le> 1"
  by (cases a) auto

lemma toNumber_values:
  "toNumber 0 = Fin 0" "toNumber 1 = Fin 1" "toNumber 2 = Fin 2" "toNumber (- 1) = Fin (- 1)"
  by (simp_all add: double_eval)

lemma ratio_of_large_quotient:
  assumes n: "0 < n" "n \<le> 2 ^ 53" and q: "2 ^ 53 < q"
  shows "Math_min1 (Math_max0 (one_minus (number_div (Number q) n))) = Fin 0"
proof -
  have "number_le (Number (2 ^ 53)) (Number q)" using q by (intro Number_mono) simp
  moreover have "Number (2 ^ 53) = Fin (2 ^ 53)" using Number_exact [of "2 ^ 53"] by simp
  ultimately have "number_le (Fin (2 ^ 53)) (Number q)" by simp
  then have a: "number_le (number_div (Fin (2 ^ 53)) n) (number_div (Number q) n)"
    using n(1) by (rule number_div_mono)
  have "(of_int n :: rat) \<le> of_int (2 ^ 53)" using n(2) by (simp only: of_int_le_iff)
  then have "(1::rat) \<le> 2 ^ 53 / of_int n" using n(1) by (simp add: pos_le_divide_eq)
  then have "number_le (toNumber 1) (toNumber (2 ^ 53 / of_int n))" by (rule toNumber_mono)
  then have "number_le (Fin 1) (number_div (Fin (2 ^ 53)) n)"
    using n(1) by (simp add: toNumber_values)
  from number_le_trans [OF this a]
  have "number_le (one_minus (number_div (Number q) n)) (one_minus (Fin 1))"
    by (rule one_minus_antimono)
  then have le: "number_le (one_minus (number_div (Number q) n)) (Fin 0)"
    by (simp add: toNumber_values)
  from clamp_mono [OF le] obtain r
    where r: "Math_min1 (Math_max0 (one_minus (number_div (Number q) n))) = Fin r" "r \<le> 0"
    by auto
  from clamp_range [of "one_minus (number_div (Number q) n)"] number_le_not_NaN [OF le] r(1)
  have "0 \<le> r" by auto
  with r show ?thesis by simp
qed

lemma ratio_of_small_quotient:
  assumes n: "0 < n" "n \<le> 2 ^ 53" and q: "q < - (2 ^ 53)"
  shows "Math_min1 (Math_max0 (one_minus (number_div (Number q) n))) = Fin 1"
proof -
  have "number_le (Number q) (Number (- (2 ^ 53)))" using q by (intro Number_mono) simp
  moreover have "Number (- (2 ^ 53)) = Fin (- (2 ^ 53))"
    using Number_exact [of "- (2 ^ 53)"] by simp
  ultimately have "number_le (Number q) (Fin (- (2 ^ 53)))" by simp
  then have a: "number_le (number_div (Number q) n) (number_div (Fin (- (2 ^ 53))) n)"
    using n(1) by (rule number_div_mono)
  have "(of_int n :: rat) \<le> of_int (2 ^ 53)" using n(2) by (simp only: of_int_le_iff)
  then have "(1::rat) \<le> 2 ^ 53 / of_int n" using n(1) by (simp add: pos_le_divide_eq)
  then have "- (2 ^ 53) / of_int n \<le> (- 1 :: rat)" by simp
  then have "number_le (toNumber (- (2 ^ 53) / of_int n)) (toNumber (- 1))" by (rule toNumber_mono)
  then have "number_le (number_div (Fin (- (2 ^ 53))) n) (Fin (- 1))"
    using n(1) by (simp add: toNumber_values)
  from number_le_trans [OF a this]
  have "number_le (one_minus (Fin (- 1))) (one_minus (number_div (Number q) n))"
    by (rule one_minus_antimono)
  then have le: "number_le (Fin 2) (one_minus (number_div (Number q) n))"
    by (simp add: toNumber_values)
  from clamp_mono [OF le] obtain r
    where r: "Math_min1 (Math_max0 (one_minus (number_div (Number q) n))) = Fin r" "1 \<le> r"
    by auto
  from clamp_range [of "one_minus (number_div (Number q) n)"] number_le_not_NaN [OF le] r(1)
  have "r \<le> 1" by auto
  with r show ?thesis by simp
qed

section \<open>FeeCalculator: the surplus ratio\<close>

lemma feeSurplus_sum_list:
  "mapSurplus fc txs = Inr ss \<Longrightarrow> feeSurplus fc txs = Inr (sum_list ss)"
  by (simp add: feeSurplus_def foldl_add_sum_list)

lemma mapSurplus_Inr_iff:
  "(mapSurplus fc txs = Inr ss) = (map (txSurplus fc) txs = map Inr ss)"
proof (induction txs arbitrary: ss)
  case Nil
  show ?case by auto
next
  case (Cons t txs)
  show ?case
  proof (cases "txSurplus fc t")
    case (Inl e)
    then show ?thesis by (cases ss) auto
  next
    case s: (Inr s)
    show ?thesis
    proof (cases "mapSurplus fc txs")
      case (Inl e)
      have "map (txSurplus fc) txs \<noteq> map Inr rest" for rest
        using Cons.IH [of rest] Inl by simp
      with s Inl show ?thesis by (cases ss) auto
    next
      case (Inr rest)
      then have m: "map (txSurplus fc) txs = map Inr rest" by (simp add: Cons.IH)
      have "(map Inr rest = map Inr rest') = (rest = rest')" for rest' :: "int list"
        and rest :: "int list"
        by (simp add: inj_map_eq_map [where ?f = "Inr :: int \<Rightarrow> error + int"] inj_def)
      with s Inr m show ?thesis by (cases ss) auto
    qed
  qed
qed

lemma mapSurplus_Inl_iff:
  "(mapSurplus fc txs = Inl e) =
     (\<exists>pre tx post. txs = pre @ tx # post \<and> txSurplus fc tx = Inl e
        \<and> (\<forall>p \<in> set pre. \<exists>s. txSurplus fc p = Inr s))"
proof (induction txs)
  case Nil
  show ?case by simp
next
  case (Cons t txs)
  show ?case
  proof (cases "txSurplus fc t")
    case (Inl e')
    show ?thesis
    proof
      assume "mapSurplus fc (t # txs) = Inl e"
      with Inl have "e' = e" by simp
      with Inl have "t # txs = [] @ t # txs \<and> txSurplus fc t = Inl e
          \<and> (\<forall>p \<in> set []. \<exists>s. txSurplus fc p = Inr s)" by simp
      then show "\<exists>pre tx post. t # txs = pre @ tx # post \<and> txSurplus fc tx = Inl e
          \<and> (\<forall>p \<in> set pre. \<exists>s. txSurplus fc p = Inr s)" by blast
    next
      assume "\<exists>pre tx post. t # txs = pre @ tx # post \<and> txSurplus fc tx = Inl e
          \<and> (\<forall>p \<in> set pre. \<exists>s. txSurplus fc p = Inr s)"
      then obtain pre tx post where p: "t # txs = pre @ tx # post" "txSurplus fc tx = Inl e"
        "\<forall>p \<in> set pre. \<exists>s. txSurplus fc p = Inr s" by blast
      have "pre = []"
      proof (cases pre)
        case Nil
        then show ?thesis .
      next
        case (Cons a list)
        with p(1) have "a = t" by simp
        with Cons p(3) Inl show ?thesis by simp
      qed
      with p have "tx = t" by simp
      with p(2) Inl show "mapSurplus fc (t # txs) = Inl e" by simp
    qed
  next
    case (Inr s)
    have "(mapSurplus fc (t # txs) = Inl e) = (mapSurplus fc txs = Inl e)"
      using Inr by (simp split: sum.splits)
    also have "\<dots> = (\<exists>pre tx post. txs = pre @ tx # post \<and> txSurplus fc tx = Inl e
        \<and> (\<forall>p \<in> set pre. \<exists>s. txSurplus fc p = Inr s))" by (rule Cons.IH)
    also have "\<dots> = (\<exists>pre tx post. t # txs = pre @ tx # post \<and> txSurplus fc tx = Inl e
        \<and> (\<forall>p \<in> set pre. \<exists>s. txSurplus fc p = Inr s))"
    proof
      assume "\<exists>pre tx post. txs = pre @ tx # post \<and> txSurplus fc tx = Inl e
        \<and> (\<forall>p \<in> set pre. \<exists>s. txSurplus fc p = Inr s)"
      then obtain pre tx post where p: "txs = pre @ tx # post" "txSurplus fc tx = Inl e"
        "\<forall>p \<in> set pre. \<exists>s. txSurplus fc p = Inr s" by blast
      with Inr have "t # txs = (t # pre) @ tx # post \<and> txSurplus fc tx = Inl e
        \<and> (\<forall>p \<in> set (t # pre). \<exists>s. txSurplus fc p = Inr s)" by simp
      then show "\<exists>pre tx post. t # txs = pre @ tx # post \<and> txSurplus fc tx = Inl e
        \<and> (\<forall>p \<in> set pre. \<exists>s. txSurplus fc p = Inr s)" by blast
    next
      assume "\<exists>pre tx post. t # txs = pre @ tx # post \<and> txSurplus fc tx = Inl e
        \<and> (\<forall>p \<in> set pre. \<exists>s. txSurplus fc p = Inr s)"
      then obtain pre tx post where p: "t # txs = pre @ tx # post" "txSurplus fc tx = Inl e"
        "\<forall>p \<in> set pre. \<exists>s. txSurplus fc p = Inr s" by blast
      from p(1,2) Inr obtain pre' where pre: "pre = t # pre'" by (cases pre) auto
      with p have "txs = pre' @ tx # post \<and> txSurplus fc tx = Inl e
        \<and> (\<forall>p \<in> set pre'. \<exists>s. txSurplus fc p = Inr s)" by simp
      then show "\<exists>pre tx post. txs = pre @ tx # post \<and> txSurplus fc tx = Inl e
        \<and> (\<forall>p \<in> set pre. \<exists>s. txSurplus fc p = Inr s)" by blast
    qed
    finally show ?thesis .
  qed
qed

lemma txSurplus_ACCOUNT: "txType tx = ACCOUNT \<Longrightarrow> txSurplus fc tx = Inr 0"
  by (simp add: txSurplus_def getFeeForTxDao_def getMinTxFee_def toEthPrice_def)

lemma computeSurplusRatio_unfold:
  assumes "getBaseFee fc ETH = Inr baseFee" and "baseFee \<noteq> 0"
    and "feeSurplus fc txs = Inr surplus"
  shows "computeSurplusRatio fc txs =
           Inr (Math_min1 (Math_max0 (one_minus
                  (number_div (Number (bigint_div surplus baseFee)) (txsPerRollup fc)))))"
  using assms by (simp add: computeSurplusRatio_def)

lemma quotient_bounded:
  assumes "n \<noteq> 0" and "\<bar>q\<bar> \<le> 2 ^ 53"
  shows "\<bar>(of_int q :: rat) / of_int n\<bar> \<le> 2 ^ 53"
proof -
  have "(of_int \<bar>q\<bar> :: rat) \<le> of_int (2 ^ 53)" using assms(2) by (simp only: of_int_le_iff)
  then have q: "\<bar>of_int q :: rat\<bar> \<le> 2 ^ 53" by simp
  have "1 \<le> \<bar>n\<bar>" using assms(1) by simp
  then have "(of_int 1 :: rat) \<le> of_int \<bar>n\<bar>" by (simp only: of_int_le_iff)
  then have n: "1 \<le> \<bar>of_int n :: rat\<bar>" by simp
  have "\<bar>(of_int q :: rat) / of_int n\<bar> = \<bar>of_int q\<bar> / \<bar>of_int n\<bar>" by (rule abs_divide)
  also have "\<dots> \<le> \<bar>of_int q\<bar> / 1" using n by (intro divide_left_mono) simp_all
  finally show ?thesis using q by simp
qed

lemma computeSurplusRatio_nonzero:
  assumes "getBaseFee fc ETH = Inr baseFee" and "baseFee \<noteq> 0"
    and "feeSurplus fc txs = Inr surplus" and "txsPerRollup fc \<noteq> 0"
    and "\<bar>bigint_div surplus baseFee\<bar> \<le> 2 ^ 53"
  shows "computeSurplusRatio fc txs =
           Inr (Fin (clamp01 (roundDouble (1 - roundDouble
                  (of_int (bigint_div surplus baseFee) / of_int (txsPerRollup fc))))))"
proof -
  define q where "q = bigint_div surplus baseFee"
  define x :: rat where "x = of_int q / of_int (txsPerRollup fc)"
  have x: "\<bar>x\<bar> \<le> 2 ^ 53"
    unfolding x_def using assms(4,5) by (intro quotient_bounded) (simp_all add: q_def)
  from roundDouble_bounded [OF x] have r: "\<bar>1 - roundDouble x\<bar> \<le> 2 ^ 54" by simp
  from x have x': "\<bar>x\<bar> \<le> 2 ^ 54" by simp
  have "number_div (Number q) (txsPerRollup fc) = Fin (roundDouble x)"
    using assms(4,5) by (simp add: q_def [symmetric] Number_exact x_def [symmetric] toNumber_finite [OF x'])
  then have "one_minus (number_div (Number q) (txsPerRollup fc))
               = Fin (roundDouble (1 - roundDouble x))"
    by (simp add: toNumber_finite [OF r])
  then show ?thesis
    unfolding computeSurplusRatio_unfold [OF assms(1-3)] q_def [symmetric] x_def [symmetric]
    by (simp add: clamp01_def)
qed

lemma computeSurplusRatio_near:
  assumes b: "getBaseFee fc ETH = Inr baseFee" "baseFee \<noteq> 0"
    and s: "feeSurplus fc txs = Inr surplus"
    and n: "0 < txsPerRollup fc" "txsPerRollup fc \<le> 2 ^ 53"
  shows "\<exists>r. computeSurplusRatio fc txs = Inr (Fin r)
          \<and> \<bar>r - clamp01 (1 - of_int (bigint_div surplus baseFee) / of_int (txsPerRollup fc))\<bar>
              \<le> 1 / 2 ^ 53"
proof -
  define q where "q = bigint_div surplus baseFee"
  define m where "m = txsPerRollup fc"
  have m: "0 < m" "m \<le> 2 ^ 53" using n by (simp_all add: m_def)
  have "(of_int m :: rat) \<le> of_int (2 ^ 53)" using m(2) by (simp only: of_int_le_iff)
  then have m': "(of_int m :: rat) \<le> 2 ^ 53" by simp
  note u = computeSurplusRatio_unfold [OF b s, folded q_def m_def]
  consider "\<bar>q\<bar> \<le> 2 ^ 53" | "2 ^ 53 < q" | "q < - (2 ^ 53)" by linarith
  then have "\<exists>r. computeSurplusRatio fc txs = Inr (Fin r)
          \<and> \<bar>r - clamp01 (1 - of_int q / of_int m)\<bar> \<le> 1 / 2 ^ 53"
  proof cases
    case 1
    have "\<bar>clamp01 (roundDouble (1 - roundDouble (of_int q / of_int m)))
            - clamp01 (1 - of_int q / of_int m)\<bar> \<le> 1 / 2 ^ 53"
      unfolding clamp01_def by (rule roundDouble_ratio_error)
    moreover have "computeSurplusRatio fc txs =
           Inr (Fin (clamp01 (roundDouble (1 - roundDouble (of_int q / of_int m)))))"
      unfolding q_def m_def using b s n(1) 1
      by (intro computeSurplusRatio_nonzero) (simp_all add: q_def)
    ultimately show ?thesis by blast
  next
    case 2
    then have "(of_int (2 ^ 53) :: rat) < of_int q" by (simp only: of_int_less_iff)
    with m' have "(of_int m :: rat) < of_int q" by simp
    then have "(1::rat) < of_int q / of_int m" using m(1) by (simp add: pos_less_divide_eq)
    then have "clamp01 (1 - of_int q / of_int m) = 0" by (simp add: clamp01_def)
    with u ratio_of_large_quotient [OF m 2] show ?thesis by simp
  next
    case 3
    then have "(of_int q :: rat) < of_int (- (2 ^ 53))" by (simp only: of_int_less_iff)
    then have "(of_int q :: rat) < 0" by simp
    then have "(of_int q :: rat) / of_int m < 0" using m(1) by (simp add: divide_neg_pos)
    then have "clamp01 (1 - of_int q / of_int m) = 1" by (simp add: clamp01_def)
    with u ratio_of_small_quotient [OF m 3] show ?thesis by simp
  qed
  then show ?thesis by (simp add: q_def m_def)
qed

text \<open>
  C6 (amended). \<open>computeSurplusRatio\<close> is 1 when the base fee is 0. Otherwise, for a
  non-zero \<open>txsPerRollup\<close> and a quotient \<open>q\<close> of magnitude at most \<open>2^53\<close>, where \<open>q\<close> is
  the surplus sum divided by the base fee as \<open>bigint\<close>s, truncated towards zero, it is
  \<open>clamp(1 - q / txsPerRollup, 0, 1)\<close> in double arithmetic: the division and the
  subtraction are each rounded to the nearest double. For a positive \<open>txsPerRollup\<close> of
  at most \<open>2^53\<close> and any quotient, the result is within \<open>2^-53\<close> of the exact rational
  \<open>clamp(1 - q / txsPerRollup, 0, 1)\<close>, which is the formula
  \<open>clamp(1 - \<Sigma> / (baseFee * txsPerRollup), 0, 1)\<close> when the base fee divides the sum.
  The sum is the sum of the surpluses of the transactions, one for each transaction and
  in their order, each the fee less the minimum fee, converted to the native asset; an
  \<open>ACCOUNT\<close> transaction has surplus 0, and a \<open>DEFI_DEPOSIT\<close> or \<open>DEFI_CLAIM\<close> proof pays
  its fee in the input asset of its bridge.
\<close>

theorem computeSurplusRatio_formula:
  "(getBaseFee fc ETH = Inr 0 \<longrightarrow> computeSurplusRatio fc txs = Inr (Fin 1))
   \<and> (getBaseFee fc ETH = Inr baseFee \<and> baseFee \<noteq> 0 \<and> feeSurplus fc txs = Inr surplus
        \<and> txsPerRollup fc \<noteq> 0 \<and> \<bar>bigint_div surplus baseFee\<bar> \<le> 2 ^ 53 \<longrightarrow>
       computeSurplusRatio fc txs =
         Inr (Fin (clamp01 (roundDouble (1 - roundDouble
                (of_int (bigint_div surplus baseFee) / of_int (txsPerRollup fc)))))))
   \<and> (getBaseFee fc ETH = Inr baseFee \<and> baseFee \<noteq> 0 \<and> feeSurplus fc txs = Inr surplus
        \<and> 0 < txsPerRollup fc \<and> txsPerRollup fc \<le> 2 ^ 53 \<longrightarrow>
       (\<exists>r. computeSurplusRatio fc txs = Inr (Fin r)
          \<and> \<bar>r - clamp01 (1 - of_int (bigint_div surplus baseFee) / of_int (txsPerRollup fc))\<bar>
              \<le> 1 / 2 ^ 53))
   \<and> (getBaseFee fc ETH = Inr baseFee \<and> baseFee \<noteq> 0 \<and> feeSurplus fc txs = Inr surplus
        \<and> 0 < txsPerRollup fc \<and> txsPerRollup fc \<le> 2 ^ 53 \<and> baseFee dvd surplus \<longrightarrow>
       (\<exists>r. computeSurplusRatio fc txs = Inr (Fin r)
          \<and> \<bar>r - spec_surplusRatio surplus baseFee (txsPerRollup fc)\<bar> \<le> 1 / 2 ^ 53))
   \<and> ((mapSurplus fc txs = Inr ss) = (map (txSurplus fc) txs = map Inr ss))
   \<and> (mapSurplus fc txs = Inr ss \<longrightarrow> feeSurplus fc txs = Inr (sum_list ss))
   \<and> (txType tx = ACCOUNT \<longrightarrow> txSurplus fc tx = Inr 0)
   \<and> (txType tx \<noteq> ACCOUNT
        \<and> (proofId (proofData tx) = ProofId_DEFI_DEPOSIT \<or> proofId (proofData tx) = ProofId_DEFI_CLAIM)
        \<longrightarrow> getFeeForTxDao tx = (bridgeInputAssetId (proofData tx), txFee (proofData tx)))
   \<and> (getFeeForTxDao tx = (a, fee) \<and> getMinTxFee fc a (txType tx) = Inr minFee \<longrightarrow>
        txSurplus fc tx = toEthPrice fc a (fee - minFee))"
proof -
  let ?q = "bigint_div surplus baseFee" and ?n = "txsPerRollup fc"
  have c1: "getBaseFee fc ETH = Inr 0 \<longrightarrow> computeSurplusRatio fc txs = Inr (Fin 1)"
    by (simp add: computeSurplusRatio_def)
  have c2: "getBaseFee fc ETH = Inr baseFee \<and> baseFee \<noteq> 0 \<and> feeSurplus fc txs = Inr surplus
        \<and> ?n \<noteq> 0 \<and> \<bar>?q\<bar> \<le> 2 ^ 53 \<longrightarrow>
       computeSurplusRatio fc txs =
         Inr (Fin (clamp01 (roundDouble (1 - roundDouble (of_int ?q / of_int ?n)))))"
    using computeSurplusRatio_nonzero [of fc baseFee txs surplus] by blast
  have c3: "getBaseFee fc ETH = Inr baseFee \<and> baseFee \<noteq> 0 \<and> feeSurplus fc txs = Inr surplus
        \<and> 0 < ?n \<and> ?n \<le> 2 ^ 53 \<longrightarrow>
       (\<exists>r. computeSurplusRatio fc txs = Inr (Fin r)
          \<and> \<bar>r - clamp01 (1 - of_int ?q / of_int ?n)\<bar> \<le> 1 / 2 ^ 53)"
    using computeSurplusRatio_near [of fc baseFee txs surplus] by blast
  have c4: "getBaseFee fc ETH = Inr baseFee \<and> baseFee \<noteq> 0 \<and> feeSurplus fc txs = Inr surplus
        \<and> 0 < ?n \<and> ?n \<le> 2 ^ 53 \<and> baseFee dvd surplus \<longrightarrow>
       (\<exists>r. computeSurplusRatio fc txs = Inr (Fin r)
          \<and> \<bar>r - spec_surplusRatio surplus baseFee ?n\<bar> \<le> 1 / 2 ^ 53)"
  proof (intro impI, elim conjE)
    assume h: "getBaseFee fc ETH = Inr baseFee" "baseFee \<noteq> 0" "feeSurplus fc txs = Inr surplus"
       "0 < ?n" "?n \<le> 2 ^ 53" and d: "baseFee dvd surplus"
    have "(of_int ?q :: rat) / of_int ?n = of_int surplus / (of_int baseFee * of_int ?n)"
      using d h(2) by (simp add: bigint_div_exact)
    then have "spec_surplusRatio surplus baseFee ?n = clamp01 (1 - of_int ?q / of_int ?n)"
      by (simp add: spec_surplusRatio_def)
    with c3 h show "\<exists>r. computeSurplusRatio fc txs = Inr (Fin r)
          \<and> \<bar>r - spec_surplusRatio surplus baseFee ?n\<bar> \<le> 1 / 2 ^ 53" by simp
  qed
  have c5: "(mapSurplus fc txs = Inr ss) = (map (txSurplus fc) txs = map Inr ss)"
    by (rule mapSurplus_Inr_iff)
  have c6: "mapSurplus fc txs = Inr ss \<longrightarrow> feeSurplus fc txs = Inr (sum_list ss)"
    by (simp add: feeSurplus_sum_list)
  have c7: "txType tx = ACCOUNT \<longrightarrow> txSurplus fc tx = Inr 0"
    by (simp add: txSurplus_ACCOUNT)
  have c8: "txType tx \<noteq> ACCOUNT
        \<and> (proofId (proofData tx) = ProofId_DEFI_DEPOSIT \<or> proofId (proofData tx) = ProofId_DEFI_CLAIM)
        \<longrightarrow> getFeeForTxDao tx = (bridgeInputAssetId (proofData tx), txFee (proofData tx))"
    by (auto simp: getFeeForTxDao_def)
  have c9: "getFeeForTxDao tx = (a, fee) \<and> getMinTxFee fc a (txType tx) = Inr minFee \<longrightarrow>
        txSurplus fc tx = toEthPrice fc a (fee - minFee)"
    by (simp add: txSurplus_def)
  show ?thesis by (intro conjI c1 c2 c3 c4 c5 c6 c7 c8 c9)
qed

text \<open>
  C6 as stated fails, in two ways. The quotient of the surplus sum by the base fee is
  truncated: with base fee 20000, ten transactions per rollup and a surplus of 10000, the
  code returns 1 where the exact rational value is \<open>19/20\<close>. And the double arithmetic
  rounds: with a surplus of 140000 the code returns \<open>0.30000000000000004\<close>, the double
  \<open>5404319552844596 / 2^54\<close>, where the exact rational value is \<open>3/10\<close>.
\<close>

theorem computeSurplusRatio_truncates_counterexample:
  "getBaseFee exampleFeeCalculator ETH = Inr 20000
   \<and> feeSurplus exampleFeeCalculator [exampleTx 30000] = Inr 10000
   \<and> computeSurplusRatio exampleFeeCalculator [exampleTx 30000] = Inr (Fin 1)
   \<and> spec_surplusRatio 10000 20000 (txsPerRollup exampleFeeCalculator) = 19 / 20
   \<and> feeSurplus exampleFeeCalculator [exampleTx 160000] = Inr 140000
   \<and> computeSurplusRatio exampleFeeCalculator [exampleTx 160000]
        = Inr (Fin (5404319552844596 / 2 ^ 54))
   \<and> spec_surplusRatio 140000 20000 (txsPerRollup exampleFeeCalculator) = 3 / 10"
proof -
  have b: "getBaseFee exampleFeeCalculator ETH = Inr 20000"
    by (simp add: exampleFeeCalculator_def fee_defs)
  have s1: "feeSurplus exampleFeeCalculator [exampleTx 30000] = Inr 10000"
    by (simp add: exampleFeeCalculator_def exampleTx_def fee_defs)
  have s2: "feeSurplus exampleFeeCalculator [exampleTx 160000] = Inr 140000"
    by (simp add: exampleFeeCalculator_def exampleTx_def fee_defs)
  have n: "txsPerRollup exampleFeeCalculator = 10" by (simp add: exampleFeeCalculator_def)
  have q1: "bigint_div 10000 20000 = 0" and q2: "bigint_div 140000 20000 = 7"
    by (simp_all add: bigint_div_def)
  have d1: "one_minus (number_div (Number 0) 10) = Fin 1"
    by (simp add: Number_def double_eval)
  have d7: "number_div (Number 7) 10 = Fin (6305039478318694 / 2 ^ 53)"
    by (simp add: Number_def double_eval)
  have d7': "one_minus (Fin (6305039478318694 / 2 ^ 53)) = Fin (5404319552844596 / 2 ^ 54)"
    by (simp add: double_eval)
  have r1: "computeSurplusRatio exampleFeeCalculator [exampleTx 30000] = Inr (Fin 1)"
    using computeSurplusRatio_unfold [OF b _ s1] n q1 d1 by simp
  have r2: "computeSurplusRatio exampleFeeCalculator [exampleTx 160000]
        = Inr (Fin (5404319552844596 / 2 ^ 54))"
    using computeSurplusRatio_unfold [OF b _ s2] n q2 d7 d7' by simp
  have e: "spec_surplusRatio 10000 20000 10 = 19 / 20" "spec_surplusRatio 140000 20000 10 = 3 / 10"
    by (simp_all add: spec_surplusRatio_def clamp01_def)
  show ?thesis using b s1 s2 r1 r2 e n by simp
qed

theorem computeSurplusRatio_formula_witness:
  "getBaseFee exampleFeeCalculator ETH = Inr 20000
   \<and> feeSurplus exampleFeeCalculator [exampleTx 70000] = Inr 50000
   \<and> txsPerRollup exampleFeeCalculator \<noteq> 0
   \<and> \<bar>bigint_div 50000 20000\<bar> \<le> 2 ^ 53
   \<and> 0 < txsPerRollup exampleFeeCalculator
   \<and> txsPerRollup exampleFeeCalculator \<le> 2 ^ 53
   \<and> computeSurplusRatio exampleFeeCalculator [exampleTx 70000]
       = Inr (Fin (7205759403792794 / 2 ^ 53))
   \<and> feeSurplus exampleFeeCalculator [exampleTx 60000] = Inr 40000
   \<and> (20000 :: int) dvd 40000
   \<and> (\<exists>r. computeSurplusRatio exampleFeeCalculator [exampleTx 60000] = Inr (Fin r)
         \<and> \<bar>r - 4 / 5\<bar> \<le> 1 / 2 ^ 53)
   \<and> getBaseFee (exampleFeeCalculator\<lparr>feeFreeAssets := [0]\<rparr>) ETH = Inr 0
   \<and> computeSurplusRatio (exampleFeeCalculator\<lparr>feeFreeAssets := [0]\<rparr>) [exampleTx 70000]
       = Inr (Fin 1)
   \<and> mapSurplus exampleFeeCalculator [exampleTx 70000, accountTx] = Inr [50000, 0]
   \<and> map (txSurplus exampleFeeCalculator) [exampleTx 70000, accountTx] = [Inr 50000, Inr 0]
   \<and> feeSurplus exampleFeeCalculator [exampleTx 70000, accountTx] = Inr 50000
   \<and> txType accountTx = ACCOUNT
   \<and> txSurplus exampleFeeCalculator accountTx = Inr 0
   \<and> txType defiTx \<noteq> ACCOUNT
   \<and> proofId (proofData defiTx) = ProofId_DEFI_DEPOSIT
   \<and> getFeeForTxDao defiTx = (0, 25000)"
proof -
  have b: "getBaseFee exampleFeeCalculator ETH = Inr 20000"
    by (simp add: exampleFeeCalculator_def fee_defs)
  have s7: "feeSurplus exampleFeeCalculator [exampleTx 70000] = Inr 50000"
    by (simp add: exampleFeeCalculator_def exampleTx_def fee_defs)
  have s6: "feeSurplus exampleFeeCalculator [exampleTx 60000] = Inr 40000"
    by (simp add: exampleFeeCalculator_def exampleTx_def fee_defs)
  have t7: "txSurplus exampleFeeCalculator (exampleTx 70000) = Inr 50000"
    by (simp add: exampleFeeCalculator_def exampleTx_def fee_defs)
  have n: "txsPerRollup exampleFeeCalculator = 10" by (simp add: exampleFeeCalculator_def)
  have q: "bigint_div 50000 20000 = 2" "bigint_div 40000 20000 = 2"
    by (simp_all add: bigint_div_def)
  have b0: "getBaseFee (exampleFeeCalculator\<lparr>feeFreeAssets := [0]\<rparr>) ETH = Inr 0"
    by (simp add: exampleFeeCalculator_def fee_defs)
  have d: "clamp01 (roundDouble (1 - roundDouble (2 / 10))) = 7205759403792794 / 2 ^ 53"
    by (simp add: clamp01_def double_eval)
  have r7: "computeSurplusRatio exampleFeeCalculator [exampleTx 70000]
       = Inr (Fin (7205759403792794 / 2 ^ 53))"
    using computeSurplusRatio_formula
            [of exampleFeeCalculator "[exampleTx 70000]" 20000 50000,
             THEN conjunct2, THEN conjunct1] b s7 n q d
    by simp
  have r6: "\<exists>r. computeSurplusRatio exampleFeeCalculator [exampleTx 60000] = Inr (Fin r)
         \<and> \<bar>r - 4 / 5\<bar> \<le> 1 / 2 ^ 53"
    using computeSurplusRatio_formula
            [of exampleFeeCalculator "[exampleTx 60000]" 20000 40000,
             THEN conjunct2, THEN conjunct2, THEN conjunct2, THEN conjunct1] b s6 n q
    by (simp add: spec_surplusRatio_def clamp01_def)
  have r0: "computeSurplusRatio (exampleFeeCalculator\<lparr>feeFreeAssets := [0]\<rparr>) [exampleTx 70000]
       = Inr (Fin 1)"
    using computeSurplusRatio_formula
            [of "exampleFeeCalculator\<lparr>feeFreeAssets := [0]\<rparr>" "[exampleTx 70000]"] b0
    by simp
  have a: "txType accountTx = ACCOUNT" by (simp add: accountTx_def)
  have sa: "txSurplus exampleFeeCalculator accountTx = Inr 0"
    using computeSurplusRatio_formula [of exampleFeeCalculator _ _ _ _ accountTx] a by blast
  have mp: "map (txSurplus exampleFeeCalculator) [exampleTx 70000, accountTx] = [Inr 50000, Inr 0]"
    using t7 sa by simp
  have m7: "mapSurplus exampleFeeCalculator [exampleTx 70000, accountTx] = Inr [50000, 0]"
    using computeSurplusRatio_formula
            [of exampleFeeCalculator "[exampleTx 70000, accountTx]" _ _ "[50000, 0]"] mp
    by simp
  have f7: "feeSurplus exampleFeeCalculator [exampleTx 70000, accountTx] = Inr 50000"
    using computeSurplusRatio_formula
            [of exampleFeeCalculator "[exampleTx 70000, accountTx]" _ _ "[50000, 0]"] m7
    by simp
  have dd: "txType defiTx \<noteq> ACCOUNT" "proofId (proofData defiTx) = ProofId_DEFI_DEPOSIT"
    by (simp_all add: defiTx_def)
  have fd: "getFeeForTxDao defiTx = (0, 25000)"
    using computeSurplusRatio_formula [of exampleFeeCalculator _ _ _ _ defiTx] dd
    by (simp add: defiTx_def)
  show ?thesis using b s7 n q r7 s6 r6 b0 r0 m7 mp f7 a sa dd fd by simp
qed

lemma applyGasPrice_nonneg:
  assumes "nonneg_config fc" and "0 \<le> v" and "applyGasPrice fc v = Inr r"
  shows "0 \<le> r"
proof -
  from assms(3) obtain pct where pct: "feeGasPriceMultiplierPct fc = Some pct"
    by (auto simp: applyGasPrice_def split: option.splits)
  with assms(1) have p: "0 \<le> pct" "0 \<le> getGasPrice (priceTracker fc)" "0 \<le> maxFeeGasPrice fc"
    by (simp_all add: nonneg_config_def)
  have e: "0 \<le> bigint_div (v * getGasPrice (priceTracker fc) * pct) 100"
    using p assms(2) by (intro bigint_div_ge0) simp_all
  have m: "0 \<le> v * maxFeeGasPrice fc" using p assms(2) by simp
  show ?thesis
    using assms(3) pct e m by (auto simp: applyGasPrice_def Let_def split: if_splits)
qed

lemma price_nonneg:
  "nonneg_config fc \<Longrightarrow> a < length (assets fc) \<Longrightarrow> 0 \<le> getAssetPrice (priceTracker fc) a"
  by (simp add: nonneg_config_def list_all_iff)

lemma toAssetPrice_nonneg:
  assumes "nonneg_config fc" and "0 \<le> gas" and "toAssetPrice fc a gas = Inr r"
  shows "0 \<le> r"
proof -
  from assms(3) obtain asset where a: "at_index (assets fc) a = Some asset"
    by (auto simp: toAssetPrice_def Let_def split: option.splits)
  then have "a < length (assets fc)" by (auto simp: at_index_def split: if_splits)
  with assms(1) have pr: "0 \<le> getAssetPrice (priceTracker fc) a" by (rule price_nonneg)
  show ?thesis
  proof (cases "getAssetPrice (priceTracker fc) a = 0")
    case True
    with assms(3) a show ?thesis by (simp add: toAssetPrice_def Let_def)
  next
    case False
    with assms(3) a obtain v where v: "applyGasPrice fc (gas * 10 ^ decimals asset) = Inr v"
      and r: "r = bigint_div v (getAssetPrice (priceTracker fc) a)"
      by (auto simp: toAssetPrice_def Let_def split: sum.splits)
    have "0 \<le> v" using applyGasPrice_nonneg [OF assms(1) _ v] assms(2) by simp
    then show ?thesis using r pr by (simp add: bigint_div_ge0)
  qed
qed

lemma getBaseFee_nonneg:
  "nonneg_config fc \<Longrightarrow> getBaseFee fc a = Inr b \<Longrightarrow> 0 \<le> b"
  using toAssetPrice_nonneg [of fc "baseTxGas fc" a b]
  by (auto simp: getBaseFee_def nonneg_config_def split: if_splits)

lemma getFeeForTxDao_raiseFee:
  "txType tx = ACCOUNT \<Longrightarrow> getFeeForTxDao (raiseFee tx fee) = getFeeForTxDao tx"
  "txType tx \<noteq> ACCOUNT \<Longrightarrow>
     getFeeForTxDao (raiseFee tx fee) = (fst (getFeeForTxDao tx), fee)"
  "txType tx \<noteq> ACCOUNT \<Longrightarrow> snd (getFeeForTxDao tx) = txFee (proofData tx)"
  by (auto simp: getFeeForTxDao_def raiseFee_def split: ProofId.splits)

lemma toEthPrice_mono:
  assumes "nonneg_config fc" and "p \<le> q" and "toEthPrice fc a p = Inr s"
  shows "\<exists>s'. toEthPrice fc a q = Inr s' \<and> s \<le> s'"
proof (cases "a = ETH")
  case True
  with assms show ?thesis by (simp add: toEthPrice_def)
next
  case False
  with assms(3) obtain asset where a: "at_index (assets fc) a = Some asset"
    by (auto simp: toEthPrice_def split: option.splits)
  then have "a < length (assets fc)" by (auto simp: at_index_def split: if_splits)
  with assms(1) have pr: "0 \<le> getAssetPrice (priceTracker fc) a" by (rule price_nonneg)
  have "p * getAssetPrice (priceTracker fc) a \<le> q * getAssetPrice (priceTracker fc) a"
    using assms(2) pr by (rule mult_right_mono)
  then have "bigint_div (p * getAssetPrice (priceTracker fc) a) (10 ^ decimals asset)
           \<le> bigint_div (q * getAssetPrice (priceTracker fc) a) (10 ^ decimals asset)"
    by (intro bigint_div_mono) simp_all
  with assms(3) a False show ?thesis by (auto simp: toEthPrice_def)
qed

lemma toEthPrice_error:
  "toEthPrice fc a p = Inl e \<Longrightarrow> toEthPrice fc a q = Inl e"
  by (auto simp: toEthPrice_def split: if_splits option.splits)

lemma txSurplus_raiseFee_error:
  "txSurplus fc tx = Inl e \<Longrightarrow> txSurplus fc (raiseFee tx fee) = Inl e"
proof (cases "txType tx = ACCOUNT")
  case True
  assume "txSurplus fc tx = Inl e"
  with True show ?thesis by (simp add: txSurplus_ACCOUNT)
next
  case False
  assume e: "txSurplus fc tx = Inl e"
  have ty: "txType (raiseFee tx fee) = txType tx" by (simp add: raiseFee_def)
  show ?thesis
    using e False toEthPrice_error [of fc "fst (getFeeForTxDao tx)" _ e]
    by (auto simp: txSurplus_def ty getFeeForTxDao_raiseFee(2) split: prod.splits sum.splits)
qed

lemma txSurplus_raiseFee_mono:
  assumes "nonneg_config fc" and "txFee (proofData tx) \<le> fee" and "txSurplus fc tx = Inr s"
  shows "\<exists>s'. txSurplus fc (raiseFee tx fee) = Inr s' \<and> s \<le> s'"
proof (cases "txType tx = ACCOUNT")
  case True
  have ty: "txType (raiseFee tx fee) = txType tx" by (simp add: raiseFee_def)
  from True assms(3) show ?thesis by (simp add: txSurplus_ACCOUNT ty)
next
  case False
  have ty: "txType (raiseFee tx fee) = txType tx" by (simp add: raiseFee_def)
  obtain a f where af: "getFeeForTxDao tx = (a, f)" by (cases "getFeeForTxDao tx")
  with False have f: "f = txFee (proofData tx)"
    using getFeeForTxDao_raiseFee(3) [of tx] by simp
  from af False have af': "getFeeForTxDao (raiseFee tx fee) = (a, fee)"
    by (simp add: getFeeForTxDao_raiseFee(2))
  from assms(3) af obtain m where m: "getMinTxFee fc a (txType tx) = Inr m"
    and s: "toEthPrice fc a (f - m) = Inr s"
    by (auto simp: txSurplus_def split: sum.splits)
  have "f - m \<le> fee - m" using assms(2) f by simp
  from toEthPrice_mono [OF assms(1) this s]
  show ?thesis by (simp add: txSurplus_def af' ty m)
qed

lemma mapSurplus_raiseFee_error:
  "mapSurplus fc (pre @ tx # post) = Inl e \<Longrightarrow>
     nonneg_config fc \<Longrightarrow> txFee (proofData tx) \<le> fee \<Longrightarrow>
     mapSurplus fc (pre @ raiseFee tx fee # post) = Inl e"
proof (induction pre)
  case Nil
  show ?case
  proof (cases "txSurplus fc tx")
    case (Inl e')
    with Nil show ?thesis by (simp add: txSurplus_raiseFee_error)
  next
    case (Inr s)
    from txSurplus_raiseFee_mono [OF Nil(2,3) Inr] obtain s'
      where "txSurplus fc (raiseFee tx fee) = Inr s'" by blast
    with Nil Inr show ?thesis by (auto split: sum.splits)
  qed
next
  case (Cons p pre)
  then show ?case by (auto split: sum.splits)
qed

lemma mapSurplus_raiseFee_mono:
  "mapSurplus fc (pre @ tx # post) = Inr ss \<Longrightarrow>
     nonneg_config fc \<Longrightarrow> txFee (proofData tx) \<le> fee \<Longrightarrow>
     \<exists>ss'. mapSurplus fc (pre @ raiseFee tx fee # post) = Inr ss' \<and> sum_list ss \<le> sum_list ss'"
proof (induction pre arbitrary: ss)
  case Nil
  then obtain s rest where s: "txSurplus fc tx = Inr s" and rest: "mapSurplus fc post = Inr rest"
    and ss: "ss = s # rest"
    by (auto split: sum.splits)
  from txSurplus_raiseFee_mono [OF Nil(2,3) s] obtain s'
    where "txSurplus fc (raiseFee tx fee) = Inr s'" "s \<le> s'" by blast
  with rest ss show ?case by simp
next
  case (Cons p pre)
  then obtain s rest where s: "txSurplus fc p = Inr s"
    and rest: "mapSurplus fc (pre @ tx # post) = Inr rest" and ss: "ss = s # rest"
    by (auto split: sum.splits)
  from Cons.IH [OF rest Cons.prems(2,3)] obtain rest'
    where "mapSurplus fc (pre @ raiseFee tx fee # post) = Inr rest'" "sum_list rest \<le> sum_list rest'"
    by blast
  with s ss show ?case by simp
qed

lemma feeSurplus_error:
  "mapSurplus fc txs = Inl e \<Longrightarrow> feeSurplus fc txs = Inl e"
  by (simp add: feeSurplus_def)

lemma computeSurplusRatio_surplus_error:
  "getBaseFee fc ETH = Inr b \<Longrightarrow> b \<noteq> 0 \<Longrightarrow> feeSurplus fc txs = Inl e \<Longrightarrow>
     computeSurplusRatio fc txs = Inl e"
  by (simp add: computeSurplusRatio_def)

lemma computeSurplusRatio_monotone:
  assumes n: "0 < txsPerRollup fc" and cfg: "nonneg_config fc"
    and fee: "txFee (proofData tx) \<le> fee"
  shows "(\<exists>e. computeSurplusRatio fc (pre @ tx # post) = Inl e
            \<and> computeSurplusRatio fc (pre @ raiseFee tx fee # post) = Inl e)
       \<or> (\<exists>r r'. computeSurplusRatio fc (pre @ tx # post) = Inr (Fin r)
            \<and> computeSurplusRatio fc (pre @ raiseFee tx fee # post) = Inr (Fin r')
            \<and> r' \<le> r)"
proof (cases "getBaseFee fc ETH")
  case (Inl e)
  then show ?thesis by (simp add: computeSurplusRatio_def)
next
  case (Inr b)
  show ?thesis
  proof (cases "b = 0")
    case True
    with Inr show ?thesis by (simp add: computeSurplusRatio_def)
  next
    case False
    from getBaseFee_nonneg [OF cfg Inr] False have b: "0 < b" by simp
    show ?thesis
    proof (cases "mapSurplus fc (pre @ tx # post)")
      case (Inl e)
      from mapSurplus_raiseFee_error [OF Inl cfg fee]
      have "mapSurplus fc (pre @ raiseFee tx fee # post) = Inl e" .
      with Inl Inr False show ?thesis
        by (simp add: feeSurplus_error computeSurplusRatio_surplus_error)
    next
      case ss: (Inr ss)
      from mapSurplus_raiseFee_mono [OF ss cfg fee] obtain ss'
        where ss': "mapSurplus fc (pre @ raiseFee tx fee # post) = Inr ss'"
          and le: "sum_list ss \<le> sum_list ss'" by blast
      let ?q = "bigint_div (sum_list ss) b" and ?q' = "bigint_div (sum_list ss') b"
      let ?ratio = "\<lambda>q. one_minus (number_div (Number q) (txsPerRollup fc))"
      have q: "?q \<le> ?q'" using b le by (intro bigint_div_mono) simp_all
      have r: "computeSurplusRatio fc (pre @ tx # post)
                 = Inr (Math_min1 (Math_max0 (?ratio ?q)))"
        by (rule computeSurplusRatio_unfold [OF Inr False feeSurplus_sum_list [OF ss]])
      have r': "computeSurplusRatio fc (pre @ raiseFee tx fee # post)
                 = Inr (Math_min1 (Math_max0 (?ratio ?q')))"
        by (rule computeSurplusRatio_unfold [OF Inr False feeSurplus_sum_list [OF ss']])
      have "number_le (Number ?q) (Number ?q')" using q by (rule Number_mono)
      then have "number_le (number_div (Number ?q) (txsPerRollup fc))
                           (number_div (Number ?q') (txsPerRollup fc))"
        using n by (rule number_div_mono)
      then have "number_le (?ratio ?q') (?ratio ?q)" by (rule one_minus_antimono)
      from clamp_mono [OF this] r r' show ?thesis by auto
    qed
  qed
qed

lemma computeSurplusRatio_Nil:
  assumes "getBaseFee fc ETH = Inr b" and "txsPerRollup fc \<noteq> 0"
  shows "computeSurplusRatio fc [] = Inr (Fin 1)"
proof -
  have "one_minus (number_div (Number 0) (txsPerRollup fc)) = Fin 1"
    using assms(2) by (simp add: Number_def double_eval)
  with assms(1) show ?thesis
    by (simp add: computeSurplusRatio_def feeSurplus_def bigint_div_def)
qed

text \<open>
  C8. For a non-zero \<open>txsPerRollup\<close> and a base fee that can be computed, the surplus
  ratio of the empty list is 1. For a positive \<open>txsPerRollup\<close> and a configuration without
  negative amounts, raising the fee of any one transaction of a list, everything else
  fixed, never raises the surplus ratio: either both computations throw the same error or
  both return a finite ratio and the new one is at most the old one.
\<close>

theorem computeSurplusRatio_empty_and_monotone:
  "(getBaseFee fc ETH = Inr b \<and> txsPerRollup fc \<noteq> 0 \<longrightarrow>
      computeSurplusRatio fc [] = Inr (Fin 1))
   \<and> (0 < txsPerRollup fc \<and> nonneg_config fc \<and> txFee (proofData tx) \<le> fee \<longrightarrow>
        (\<exists>e. computeSurplusRatio fc (pre @ tx # post) = Inl e
            \<and> computeSurplusRatio fc (pre @ raiseFee tx fee # post) = Inl e)
      \<or> (\<exists>r r'. computeSurplusRatio fc (pre @ tx # post) = Inr (Fin r)
            \<and> computeSurplusRatio fc (pre @ raiseFee tx fee # post) = Inr (Fin r')
            \<and> r' \<le> r))"
  using computeSurplusRatio_Nil computeSurplusRatio_monotone by blast

theorem computeSurplusRatio_empty_and_monotone_witness:
  "getBaseFee exampleFeeCalculator ETH = Inr 20000
   \<and> 0 < txsPerRollup exampleFeeCalculator
   \<and> nonneg_config exampleFeeCalculator
   \<and> txFee (proofData (exampleTx 30000)) \<le> 70000
   \<and> computeSurplusRatio exampleFeeCalculator [] = Inr (Fin 1)
   \<and> computeSurplusRatio exampleFeeCalculator ([] @ exampleTx 30000 # []) = Inr (Fin 1)
   \<and> computeSurplusRatio exampleFeeCalculator ([] @ raiseFee (exampleTx 30000) 70000 # [])
        = Inr (Fin (7205759403792794 / 2 ^ 53))"
proof -
  have b: "getBaseFee exampleFeeCalculator ETH = Inr 20000"
    by (simp add: exampleFeeCalculator_def fee_defs)
  have n: "txsPerRollup exampleFeeCalculator = 10" by (simp add: exampleFeeCalculator_def)
  have c: "nonneg_config exampleFeeCalculator"
    by (simp add: exampleFeeCalculator_def nonneg_config_def)
  have f: "txFee (proofData (exampleTx 30000)) \<le> 70000" by (simp add: exampleTx_def)
  have s3: "feeSurplus exampleFeeCalculator [exampleTx 30000] = Inr 10000"
    by (simp add: exampleFeeCalculator_def exampleTx_def fee_defs)
  have s7: "feeSurplus exampleFeeCalculator [raiseFee (exampleTx 30000) 70000] = Inr 50000"
    by (simp add: exampleFeeCalculator_def exampleTx_def raiseFee_def fee_defs)
  have q: "bigint_div 10000 20000 = 0" "bigint_div 50000 20000 = 2"
    by (simp_all add: bigint_div_def)
  have d0: "one_minus (number_div (Number 0) 10) = Fin 1"
    by (simp add: Number_def double_eval)
  have d2: "number_div (Number 2) 10 = Fin (7205759403792794 / 2 ^ 55)"
    by (simp add: Number_def double_eval)
  have d2': "one_minus (Fin (7205759403792794 / 2 ^ 55)) = Fin (7205759403792794 / 2 ^ 53)"
    by (simp add: double_eval)
  have r3: "computeSurplusRatio exampleFeeCalculator ([] @ exampleTx 30000 # []) = Inr (Fin 1)"
    using computeSurplusRatio_unfold [OF b _ s3] n q d0 by simp
  have r7: "computeSurplusRatio exampleFeeCalculator ([] @ raiseFee (exampleTx 30000) 70000 # [])
        = Inr (Fin (7205759403792794 / 2 ^ 53))"
    using computeSurplusRatio_unfold [OF b _ s7] n q d2 d2' by simp
  have r0: "computeSurplusRatio exampleFeeCalculator [] = Inr (Fin 1)"
    using computeSurplusRatio_empty_and_monotone
            [of exampleFeeCalculator 20000 "exampleTx 30000" 70000 "[]" "[]"] b n
    by simp
  have m: "\<exists>r r'. computeSurplusRatio exampleFeeCalculator ([] @ exampleTx 30000 # []) = Inr (Fin r)
            \<and> computeSurplusRatio exampleFeeCalculator ([] @ raiseFee (exampleTx 30000) 70000 # [])
                 = Inr (Fin r')
            \<and> r' \<le> r"
    using computeSurplusRatio_empty_and_monotone
            [of exampleFeeCalculator 20000 "exampleTx 30000" 70000 "[]" "[]"] n c f r3
    by auto
  show ?thesis using b n c f r0 r3 r7 m by simp
qed

section \<open>Server: proofs\<close>

subsection \<open>receiveTx\<close>


lemma bind_io_Inr: "m s = (Inr a, s') \<Longrightarrow> bind_io m f s = f a s'"
  by (simp add: bind_io_def)

lemma bind_io_Inl: "m s = (Inl e, s') \<Longrightarrow> bind_io m f s = (Inl e, s')"
  by (simp add: bind_io_def)

lemma on_db_get:
  "on_db (get treeId key) s = (fst (get treeId key (worldStateDb s)), s)"
  by (simp add: on_db_def get_def)

lemma nonEmptyValue_not_empty: "nonEmptyValue \<noteq> alloc 64"
proof
  assume "nonEmptyValue = alloc 64"
  then have "nonEmptyValue ! 63 = alloc 64 ! 63" by simp
  then show False by (simp add: nonEmptyValue_def alloc_def)
qed

lemma receiveTx_unfold:
  "receiveTx newJoinSplitProof request s =
     (let proof = newJoinSplitProof (proofBytes request)
                    [encViewingKey1 request, encViewingKey2 request];
          db = worldStateDb s
      in case fst (get 1 (nullifier1 proof) db) of
           Inl e \<Rightarrow> (Inl e, s)
         | Inr v1 \<Rightarrow>
             if v1 \<noteq> alloc 64 then (Inl (NullifierExists 1), s)
             else (case fst (get 1 (nullifier2 proof) db) of
                     Inl e \<Rightarrow> (Inl e, s)
                   | Inr v2 \<Rightarrow>
                       if v2 \<noteq> alloc 64 then (Inl (NullifierExists 2), s)
                       else (case fst (get 2 (toBigIntBE (slice_from (noteTreeRoot proof) 16)) db) of
                               Inl e \<Rightarrow> (Inl e, s)
                             | Inr v \<Rightarrow>
                                 if v = alloc 64 then (Inl MerkleRootMissing, s)
                                 else if \<not> verifyProof s (proofBytes request)
                                   then (Inl ProofVerificationFailed, s)
                                   else (Inr (), s\<lparr>txQueue := txQueue s @ [Some proof]\<rparr>))))"
  by (simp add: receiveTx_def Let_def bind_io_def on_db_get throw_io_def split: sum.splits)

text \<open>
  C2. \<open>receiveTx\<close> never changes the world state. It admits the proof (returns, and
  puts exactly the parsed proof at the end of \<open>txQueue\<close>) if and only if the nullifier
  tree leaf read at \<open>nullifier1\<close> is 64 zero bytes, the one at \<open>nullifier2\<close> is 64 zero
  bytes, the root tree leaf read at the low 16 bytes of \<open>noteTreeRoot\<close> is not 64 zero
  bytes, and the verifier accepts the proof bytes. Otherwise it leaves the whole server
  state as it was, and the error is that of the first check that fails, in this order:
  nullifier 1 exists, nullifier 2 exists, Merkle root does not exist, proof verification
  failed.
\<close>

theorem receiveTx_admission:
  fixes request :: Proof and s :: Server
    and newJoinSplitProof :: "buffer \<Rightarrow> buffer list \<Rightarrow> JoinSplitProof"
  defines "jsp \<equiv> newJoinSplitProof (proofBytes request)
                      [encViewingKey1 request, encViewingKey2 request]"
  defines "leaf1 \<equiv> fst (get 1 (nullifier1 jsp) (worldStateDb s))"
  defines "leaf2 \<equiv> fst (get 1 (nullifier2 jsp) (worldStateDb s))"
  defines "rootLeaf \<equiv> fst (get 2 (toBigIntBE (slice_from (noteTreeRoot jsp) 16)) (worldStateDb s))"
  defines "result \<equiv> receiveTx newJoinSplitProof request s"
  shows "worldStateDb (snd result) = worldStateDb s
       \<and> (fst result = Inr () \<longleftrightarrow>
            leaf1 = Inr (alloc 64) \<and> leaf2 = Inr (alloc 64)
            \<and> (\<exists>v. rootLeaf = Inr v \<and> v \<noteq> alloc 64) \<and> verifyProof s (proofBytes request))
       \<and> (fst result = Inr () \<longrightarrow> snd result = s\<lparr>txQueue := txQueue s @ [Some jsp]\<rparr>)
       \<and> (fst result \<noteq> Inr () \<longrightarrow> snd result = s)
       \<and> (fst result = Inl (NullifierExists 1) \<longleftrightarrow> (\<exists>v. leaf1 = Inr v \<and> v \<noteq> alloc 64))
       \<and> (fst result = Inl (NullifierExists 2) \<longleftrightarrow>
            leaf1 = Inr (alloc 64) \<and> (\<exists>v. leaf2 = Inr v \<and> v \<noteq> alloc 64))
       \<and> (fst result = Inl MerkleRootMissing \<longleftrightarrow>
            leaf1 = Inr (alloc 64) \<and> leaf2 = Inr (alloc 64) \<and> rootLeaf = Inr (alloc 64))
       \<and> (fst result = Inl ProofVerificationFailed \<longleftrightarrow>
            leaf1 = Inr (alloc 64) \<and> leaf2 = Inr (alloc 64)
            \<and> (\<exists>v. rootLeaf = Inr v \<and> v \<noteq> alloc 64) \<and> \<not> verifyProof s (proofBytes request))"
proof -
  have fatal: "fst (get t k db) = Inl e \<Longrightarrow> e = StateIoError" for t k db e
    by (auto simp: get_def split: if_splits)
  show ?thesis
    unfolding result_def receiveTx_unfold Let_def
    unfolding leaf1_def [symmetric] leaf2_def [symmetric] rootLeaf_def [symmetric] jsp_def [symmetric]
    using fatal [of 1 "nullifier1 jsp" "worldStateDb s"]
          fatal [of 1 "nullifier2 jsp" "worldStateDb s"]
          fatal [of 2 "toBigIntBE (slice_from (noteTreeRoot jsp) 16)" "worldStateDb s"]
    unfolding leaf1_def [symmetric] leaf2_def [symmetric] rootLeaf_def [symmetric]
    by (cases leaf1; cases leaf2; cases rootLeaf) auto
qed


lemma toBigIntBE_leading_zeros: "toBigIntBE (replicate n 0 @ buf) = toBigIntBE buf"
  by (induction n) (simp_all add: toBigIntBE_def)

lemma exampleRoot_key: "toBigIntBE (slice_from (alloc 31 @ [b]) 16) = unat b"
  by (simp add: slice_from_def slice_def slice_index_def alloc_def toBigIntBE_leading_zeros)
     (simp add: toBigIntBE_def)

theorem receiveTx_admission_witness:
  "fst (get 1 1 exampleDb) = Inr (alloc 64)
   \<and> fst (get 1 2 exampleDb) = Inr (alloc 64)
   \<and> fst (get 2 5 exampleDb) = Inr nonEmptyValue
   \<and> fst (get 2 6 exampleDb) = Inr (alloc 64)
   \<and> fst (receiveTx exampleProof exampleRequest exampleServer) = Inr ()
   \<and> txQueue (snd (receiveTx exampleProof exampleRequest exampleServer))
       = [Some (exampleProof [1, 2, 3] [[4], [5]])]
   \<and> fst (receiveTx unknownRootProof exampleRequest exampleServer) = Inl MerkleRootMissing
   \<and> snd (receiveTx unknownRootProof exampleRequest exampleServer) = exampleServer"
proof -
  have l1: "fst (get 1 1 exampleDb) = Inr (alloc 64)"
    by (simp add: get_def valid_key_def exampleDb_def empty_tree_def)
  have l2: "fst (get 1 2 exampleDb) = Inr (alloc 64)"
    by (simp add: get_def valid_key_def exampleDb_def empty_tree_def)
  have l3: "fst (get 2 5 exampleDb) = Inr nonEmptyValue"
    by (simp add: get_def valid_key_def exampleDb_def put_leaf_def)
  have l4: "fst (get 2 6 exampleDb) = Inr (alloc 64)"
    by (simp add: get_def valid_key_def exampleDb_def put_leaf_def empty_tree_def)
  have p: "exampleProof (proofBytes exampleRequest)
             [encViewingKey1 exampleRequest, encViewingKey2 exampleRequest]
           = exampleProof [1, 2, 3] [[4], [5]]"
    "unknownRootProof (proofBytes exampleRequest)
             [encViewingKey1 exampleRequest, encViewingKey2 exampleRequest]
           = unknownRootProof [1, 2, 3] [[4], [5]]"
    by (simp_all add: exampleRequest_def)
  have n: "nullifier1 (exampleProof [1, 2, 3] [[4], [5]]) = 1"
          "nullifier2 (exampleProof [1, 2, 3] [[4], [5]]) = 2"
          "toBigIntBE (slice_from (noteTreeRoot (exampleProof [1, 2, 3] [[4], [5]])) 16) = 5"
          "nullifier1 (unknownRootProof [1, 2, 3] [[4], [5]]) = 1"
          "nullifier2 (unknownRootProof [1, 2, 3] [[4], [5]]) = 2"
          "toBigIntBE (slice_from (noteTreeRoot (unknownRootProof [1, 2, 3] [[4], [5]])) 16) = 6"
    by (simp_all add: exampleProof_def unknownRootProof_def exampleRoot_key)
  have v: "verifyProof exampleServer (proofBytes exampleRequest)"
    by (simp add: exampleServer_def exampleRequest_def)
  have db: "worldStateDb exampleServer = exampleDb" by (simp add: exampleServer_def)
  have q: "txQueue exampleServer = []" by (simp add: exampleServer_def)
  note t = receiveTx_admission
             [where s = exampleServer and request = exampleRequest
                and newJoinSplitProof = exampleProof, unfolded p n db]
  from t l1 l2 l3 v nonEmptyValue_not_empty
  have ok: "fst (receiveTx exampleProof exampleRequest exampleServer) = Inr ()" by simp
  with t have "snd (receiveTx exampleProof exampleRequest exampleServer)
                 = exampleServer\<lparr>txQueue := txQueue exampleServer
                                       @ [Some (exampleProof [1, 2, 3] [[4], [5]])]\<rparr>"
    by blast
  then have queued: "txQueue (snd (receiveTx exampleProof exampleRequest exampleServer))
       = [Some (exampleProof [1, 2, 3] [[4], [5]])]"
    using q by simp
  note u = receiveTx_admission
             [where s = exampleServer and request = exampleRequest
                and newJoinSplitProof = unknownRootProof, unfolded p n db]
  from u l1 l2 l4
  have bad: "fst (receiveTx unknownRootProof exampleRequest exampleServer) = Inl MerkleRootMissing"
    by blast
  then have "fst (receiveTx unknownRootProof exampleRequest exampleServer) \<noteq> Inr ()" by simp
  with u have same: "snd (receiveTx unknownRootProof exampleRequest exampleServer) = exampleServer"
    by blast
  show ?thesis using l1 l2 l3 l4 ok queued bad same by simp
qed

subsection \<open>processTxQueue\<close>


lemma processItem_close:
  assumes "shouldRollup rollupSize maxWait tx now loop"
  shows "processItem rollupSize maxWait (tx, now, now') (loop, queue)
           = (\<lparr>loop_txs = [],
               lastTxReceivedTime = (case tx of Some t \<Rightarrow> now' | None \<Rightarrow> lastTxReceivedTime loop)\<rparr>,
              queue @ [RollupJob (pendingWith tx loop)])"
  using assms by (simp add: processItem_def pendingWith_def Let_def)

lemma processItem_keep:
  assumes "\<not> shouldRollup rollupSize maxWait tx now loop"
  shows "processItem rollupSize maxWait (tx, now, now') (loop, queue)
           = (\<lparr>loop_txs = pendingWith tx loop,
               lastTxReceivedTime = (case tx of Some t \<Rightarrow> now' | None \<Rightarrow> lastTxReceivedTime loop)\<rparr>,
              queue)"
  using assms by (simp add: processItem_def pendingWith_def Let_def)

lemma batches_append: "batches (q @ q') = batches q @ batches q'"
  by (induction q rule: batches.induct) simp_all

lemma processItem_order:
  "concat (batches (snd (processItem rollupSize maxWait (tx, now, now') (loop, queue))))
     @ loop_txs (fst (processItem rollupSize maxWait (tx, now, now') (loop, queue)))
   = concat (batches queue) @ pendingWith tx loop"
  by (cases "shouldRollup rollupSize maxWait tx now loop")
     (simp_all add: processItem_close processItem_keep batches_append)

lemma processItem_extends:
  "\<exists>new. snd (processItem rollupSize maxWait item (loop, queue)) = queue @ new"
  by (cases item) (auto simp: processItem_def Let_def)

lemma processItems_order:
  "concat (batches (snd (processItems rollupSize maxWait items st))) 
     @ loop_txs (fst (processItems rollupSize maxWait items st))
   = concat (batches (snd st)) @ loop_txs (fst st) @ admitted items"
proof (induction items arbitrary: st)
  case Nil
  then show ?case by simp
next
  case (Cons item items)
  obtain tx now now' where item: "item = (tx, now, now')" by (cases item)
  obtain loop queue where st: "st = (loop, queue)" by (cases st)
  have "concat (batches (snd (processItems rollupSize maxWait (item # items) st)))
          @ loop_txs (fst (processItems rollupSize maxWait (item # items) st))
        = concat (batches (snd (processItem rollupSize maxWait item st)))
          @ loop_txs (fst (processItem rollupSize maxWait item st)) @ admitted items"
    using Cons.IH [of "processItem rollupSize maxWait item st"] by simp
  also have "\<dots> = (concat (batches queue) @ pendingWith tx loop) @ admitted items"
    using processItem_order [of rollupSize maxWait tx now now' loop queue]
    by (simp add: item st)
  also have "\<dots> = concat (batches (snd st)) @ loop_txs (fst st) @ admitted (item # items)"
    by (cases tx) (simp_all add: item st pendingWith_def)
  finally show ?case .
qed

lemma processItems_extends:
  "\<exists>new. snd (processItems rollupSize maxWait items (loop, queue)) = queue @ new"
proof (induction items arbitrary: loop queue)
  case Nil
  then show ?case by simp
next
  case (Cons item items)
  obtain loop' queue' where p: "processItem rollupSize maxWait item (loop, queue) = (loop', queue')"
    by (cases "processItem rollupSize maxWait item (loop, queue)")
  from processItem_extends [of rollupSize maxWait item loop queue] p
  obtain new1 where "queue' = queue @ new1" by auto
  moreover from Cons.IH [of loop' queue']
  obtain new2 where "snd (processItems rollupSize maxWait items (loop', queue')) = queue' @ new2"
    by blast
  ultimately show ?case using p by simp
qed

text \<open>
  C3 (amended). In a turn of the loop for the item \<open>tx\<close>, with \<open>pending\<close> the list
  of pending transactions after \<open>tx\<close> is appended: a batch is closed if and only if
  \<open>pending\<close> is not empty and \<open>tx\<close> is the flush signal, or \<open>pending\<close> has
  \<open>rollupSize\<close> transactions, or \<open>lastTxReceivedTime < now - maxRollupWaitTime\<close>, where
  \<open>lastTxReceivedTime\<close> is the time of the most recent transaction taken before this
  turn (the epoch before any). When a batch is closed, exactly one rollup job, for
  \<open>pending\<close>, is put at the end of the state queue and the pending list is emptied;
  otherwise the state queue is unchanged. Over any run of the loop the state queue only
  grows at its end, and the batches in queue order, followed by the pending list, are the
  transactions in the order in which they were delivered. The loop does not start when
  \<open>minRollupInterval\<close> exceeds \<open>maxRollupWaitTime\<close>.
\<close>

theorem processTxQueue_batches:
  "(shouldRollup rollupSize maxWait tx now loop \<longleftrightarrow>
      pendingWith tx loop \<noteq> []
      \<and> (tx = None \<or> length (pendingWith tx loop) = rollupSize
           \<or> lastTxReceivedTime loop < now - maxWait))
   \<and> (snd (processItem rollupSize maxWait (tx, now, now') (loop, queue))
        = (if shouldRollup rollupSize maxWait tx now loop
           then queue @ [RollupJob (pendingWith tx loop)] else queue))
   \<and> (loop_txs (fst (processItem rollupSize maxWait (tx, now, now') (loop, queue)))
        = (if shouldRollup rollupSize maxWait tx now loop then [] else pendingWith tx loop))
   \<and> (lastTxReceivedTime (fst (processItem rollupSize maxWait (tx, now, now') (loop, queue)))
        = (case tx of Some t \<Rightarrow> now' | None \<Rightarrow> lastTxReceivedTime loop))
   \<and> (\<exists>new. snd (processItems rollupSize maxWait items (loop, queue)) = queue @ new)
   \<and> (concat (batches (snd (processItems rollupSize maxWait items (loop, queue))))
          @ loop_txs (fst (processItems rollupSize maxWait items (loop, queue)))
        = concat (batches queue) @ loop_txs loop @ admitted items)
   \<and> (processTxQueue rollupSize maxWait minInterval items queue
        = (if minInterval > maxWait then Inl ConfigError
           else Inr (processItems rollupSize maxWait items (initialTxLoop, queue))))"
proof -
  have a: "shouldRollup rollupSize maxWait tx now loop \<longleftrightarrow>
      pendingWith tx loop \<noteq> []
      \<and> (tx = None \<or> length (pendingWith tx loop) = rollupSize
           \<or> lastTxReceivedTime loop < now - maxWait)"
    by (simp add: shouldRollup_def pendingWith_def Let_def)
  have b: "snd (processItem rollupSize maxWait (tx, now, now') (loop, queue))
        = (if shouldRollup rollupSize maxWait tx now loop
           then queue @ [RollupJob (pendingWith tx loop)] else queue)"
    by (simp add: processItem_close processItem_keep)
  have c: "loop_txs (fst (processItem rollupSize maxWait (tx, now, now') (loop, queue)))
        = (if shouldRollup rollupSize maxWait tx now loop then [] else pendingWith tx loop)"
    by (simp add: processItem_close processItem_keep)
  have d: "lastTxReceivedTime (fst (processItem rollupSize maxWait (tx, now, now') (loop, queue)))
        = (case tx of Some t \<Rightarrow> now' | None \<Rightarrow> lastTxReceivedTime loop)"
    by (cases "shouldRollup rollupSize maxWait tx now loop")
       (simp_all add: processItem_close processItem_keep)
  have e: "concat (batches (snd (processItems rollupSize maxWait items (loop, queue))))
          @ loop_txs (fst (processItems rollupSize maxWait items (loop, queue)))
        = concat (batches queue) @ loop_txs loop @ admitted items"
    using processItems_order [of rollupSize maxWait items "(loop, queue)"] by simp
  have f: "processTxQueue rollupSize maxWait minInterval items queue
        = (if minInterval > maxWait then Inl ConfigError
           else Inr (processItems rollupSize maxWait items (initialTxLoop, queue)))"
    by (simp add: processTxQueue_def)
  show ?thesis
    using a b c d e f processItems_extends [of rollupSize maxWait items loop queue]
    by (intro conjI)
qed

text \<open>
  C3 as stated fails: the time that the code compares is not that of the oldest
  transaction not yet in a batch. The first transaction ever is closed into a batch at
  once, though it was received just now; and with transactions received at 1010, 1030 and
  1050 seconds pending and a wait time of 30 seconds, the code does not close the batch,
  though the oldest has waited 40 seconds.
\<close>

theorem shouldRollup_oldest_unbatched_counterexample:
  "shouldRollup 8 30000 (Some (exampleProof [1] [])) 1000000 initialTxLoop
   \<and> \<not> spec_shouldClose 8 30000 [1000000] False 1000000
   \<and> snd (pendingTimes 8 30000
            [exampleTxItem 1 1000000, exampleTxItem 2 1010000, exampleTxItem 3 1030000]
            (initialTxLoop, []))
       = [1010000, 1030000]
   \<and> \<not> shouldRollup 8 30000 (Some (exampleProof [4] [])) 1050000
         (fst (pendingTimes 8 30000
                [exampleTxItem 1 1000000, exampleTxItem 2 1010000, exampleTxItem 3 1030000]
                (initialTxLoop, [])))
   \<and> spec_shouldClose 8 30000 ([1010000, 1030000] @ [1050000]) False 1050000"
  by (simp add: exampleTxItem_def shouldRollup_def spec_shouldClose_def initialTxLoop_def
        processItem_def Let_def)

subsection \<open>handleNewBlock\<close>


lemma frame_refl: "frame db db"
  by (simp add: frame_def)

lemma frame_trans: "frame a b \<Longrightarrow> frame b c \<Longrightarrow> frame a c"
  by (simp add: frame_def)

lemma then_io_Inr:
  "fst (then_io m k s) = Inr b \<longleftrightarrow> fst (m s) = Inr () \<and> fst (k (snd (m s))) = Inr b"
  by (cases "m s") (auto simp: then_io_def bind_io_def split: sum.splits)

lemma then_io_snd:
  "fst (m s) = Inr () \<Longrightarrow> snd (then_io m k s) = snd (k (snd (m s)))"
  by (cases "m s") (auto simp: then_io_def bind_io_def split: sum.splits)

lemma bind_io_Inr_iff:
  "fst (bind_io m f s) = Inr b \<longleftrightarrow> (\<exists>a. fst (m s) = Inr a \<and> fst (f a (snd (m s))) = Inr b)"
  by (cases "m s") (auto simp: bind_io_def split: sum.splits)

lemma bind_io_snd:
  "fst (m s) = Inr a \<Longrightarrow> snd (bind_io m f s) = snd (f a (snd (m s)))"
  by (cases "m s") (auto simp: bind_io_def split: sum.splits)

lemma put_Inr:
  assumes "fst (put t k v db) = Inr ()"
  shows "valid_key db t k"
    and "snd (put t k v db) = db\<lparr>staged := (staged db)(t := put_leaf (staged db t) k v)\<rparr>"
  using assms by (auto simp: put_def split: if_splits)

lemma put_frame: "frame db (snd (put t k v db))"
  by (simp add: put_def frame_def)

lemma put_staged:
  assumes "fst (put t k v db) = Inr ()"
  shows "staged (snd (put t k v db)) = (staged db)(t := put_leaf (staged db t) k v)"
  using put_Inr(2) [OF assms] by simp

lemma putDataEntries_frame: "frame db (snd (putDataEntries index entries db))"
proof (induction entries arbitrary: index db)
  case Nil
  then show ?case by (simp add: return_io_def frame_refl)
next
  case (Cons entry entries)
  show ?case
  proof (cases "fst (put 0 index entry db)")
    case (Inl e)
    then have "snd (putDataEntries index (entry # entries) db) = snd (put 0 index entry db)"
      by (cases "put 0 index entry db") (simp add: then_io_def bind_io_def)
    then show ?thesis by (simp add: put_frame)
  next
    case (Inr u)
    then have "snd (putDataEntries index (entry # entries) db)
                 = snd (putDataEntries (index + 1) entries (snd (put 0 index entry db)))"
      by (simp add: then_io_snd)
    then show ?thesis
      using frame_trans [OF put_frame Cons.IH] by simp
  qed
qed

lemma putDataEntries_staged:
  assumes "fst (putDataEntries index entries db) = Inr ()"
  shows "staged (snd (putDataEntries index entries db))
           = (staged db)(0 :=
               \<lparr>leaves = (\<lambda>k. if index \<le> k \<and> k < index + length entries
                               then entries ! (k - index) else leaves (staged db 0) k),
                tree_size = (if entries = [] then tree_size (staged db 0)
                             else max (tree_size (staged db 0)) (index + length entries))\<rparr>)"
  using assms
proof (induction entries arbitrary: index db)
  case Nil
  then show ?case
    by (auto simp: return_io_def fun_eq_iff intro!: MerkleTree.equality)
next
  case (Cons entry entries)
  let ?db1 = "snd (put 0 index entry db)"
  from Cons.prems have p: "fst (put 0 index entry db) = Inr ()"
    and r: "fst (putDataEntries (index + 1) entries ?db1) = Inr ()"
    by (simp_all add: then_io_Inr)
  have s1: "staged ?db1 = (staged db)(0 := put_leaf (staged db 0) index entry)"
    by (rule put_staged [OF p])
  have e: "snd (putDataEntries index (entry # entries) db)
          = snd (putDataEntries (index + 1) entries ?db1)"
    using p by (simp add: then_io_snd)
  have "staged (snd (putDataEntries index (entry # entries) db))
          = staged (snd (putDataEntries (index + 1) entries ?db1))"
    by (simp only: e)
  also have "\<dots> = (staged ?db1)(0 :=
               \<lparr>leaves = (\<lambda>k. if index + 1 \<le> k \<and> k < index + 1 + length entries
                               then entries ! (k - (index + 1)) else leaves (staged ?db1 0) k),
                tree_size = (if entries = [] then tree_size (staged ?db1 0)
                             else max (tree_size (staged ?db1 0)) (index + 1 + length entries))\<rparr>)"
    by (rule Cons.IH [OF r])
  also have "\<dots> = (staged db)(0 :=
               \<lparr>leaves = (\<lambda>k. if index \<le> k \<and> k < index + length (entry # entries)
                               then (entry # entries) ! (k - index) else leaves (staged db 0) k),
                tree_size = (if entry # entries = [] then tree_size (staged db 0)
                             else max (tree_size (staged db 0)) (index + length (entry # entries)))\<rparr>)"
    unfolding s1
    by (auto simp: put_leaf_def fun_eq_iff nth_Cons' max_def)
  finally show ?case .
qed


lemma putNullifiers_frame: "frame db (snd (putNullifiers v ns db))"
proof (induction ns arbitrary: db)
  case Nil
  then show ?case by (simp add: return_io_def frame_refl)
next
  case (Cons n ns)
  show ?case
  proof (cases "fst (put 1 (toBigIntBE n) v db)")
    case (Inl e)
    then have "snd (putNullifiers v (n # ns) db) = snd (put 1 (toBigIntBE n) v db)"
      by (cases "put 1 (toBigIntBE n) v db") (simp add: then_io_def bind_io_def)
    then show ?thesis by (simp add: put_frame)
  next
    case (Inr u)
    then have "snd (putNullifiers v (n # ns) db)
                 = snd (putNullifiers v ns (snd (put 1 (toBigIntBE n) v db)))"
      by (simp add: then_io_snd)
    then show ?thesis
      using frame_trans [OF put_frame Cons.IH] by simp
  qed
qed

lemma putNullifiers_staged:
  assumes "fst (putNullifiers v ns db) = Inr ()"
  shows "\<exists>sz. staged (snd (putNullifiers v ns db))
           = (staged db)(1 :=
               \<lparr>leaves = (\<lambda>k. if k \<in> toBigIntBE ` set ns then v else leaves (staged db 1) k),
                tree_size = sz\<rparr>)"
  using assms
proof (induction ns arbitrary: db)
  case Nil
  then show ?case
    by (auto simp: return_io_def fun_eq_iff intro!: MerkleTree.equality)
next
  case (Cons n ns)
  let ?db1 = "snd (put 1 (toBigIntBE n) v db)"
  from Cons.prems have p: "fst (put 1 (toBigIntBE n) v db) = Inr ()"
    and r: "fst (putNullifiers v ns ?db1) = Inr ()"
    by (simp_all add: then_io_Inr)
  have s1: "staged ?db1 = (staged db)(1 := put_leaf (staged db 1) (toBigIntBE n) v)"
    by (rule put_staged [OF p])
  have e: "snd (putNullifiers v (n # ns) db) = snd (putNullifiers v ns ?db1)"
    using p by (simp add: then_io_snd)
  from Cons.IH [OF r] obtain sz where
    "staged (snd (putNullifiers v ns ?db1))
       = (staged ?db1)(1 :=
           \<lparr>leaves = (\<lambda>k. if k \<in> toBigIntBE ` set ns then v else leaves (staged ?db1 1) k),
            tree_size = sz\<rparr>)" by blast
  then have "staged (snd (putNullifiers v (n # ns) db))
       = (staged db)(1 :=
           \<lparr>leaves = (\<lambda>k. if k \<in> toBigIntBE ` set (n # ns) then v else leaves (staged db 1) k),
            tree_size = sz\<rparr>)"
    unfolding e s1 by (auto simp: put_leaf_def fun_eq_iff)
  then show ?case by blast
qed

lemma nonEmptyValue_bytes: "nonEmptyValue = replicate 63 0 @ [1]"
proof -
  have "replicate (63 + 1) (0 :: byte) = replicate 63 0 @ replicate 1 0"
    by (rule replicate_add)
  then have "replicate 64 (0 :: byte) = replicate 63 0 @ [0]"
    by simp
  then show ?thesis by (simp add: nonEmptyValue_def alloc_def list_update_append)
qed

lemma handleNewBlock_steps:
  assumes ok: "fst (handleNewBlock block db) = Inr ()"
  defines "db1 \<equiv> snd (putDataEntries (dataStartIndex block) (dataEntries block) db)"
  defines "db2 \<equiv> snd (padData block db1)"
  defines "db3 \<equiv> snd (put 2 (toBigIntBE (slice_from (getRoot db2 0) 16)) nonEmptyValue db2)"
  defines "db4 \<equiv> snd (putNullifiers nonEmptyValue (nullifiers block) db3)"
  shows "fst (putDataEntries (dataStartIndex block) (dataEntries block) db) = Inr ()"
    and "fst (padData block db1) = Inr ()"
    and "fst (put 2 (toBigIntBE (slice_from (getRoot db2 0) 16)) nonEmptyValue db2) = Inr ()"
    and "fst (putNullifiers nonEmptyValue (nullifiers block) db3) = Inr ()"
    and "snd (handleNewBlock block db) = db4\<lparr>committed := staged db4\<rparr>"
proof -
  have h: "handleNewBlock block =
     then_io (putDataEntries (dataStartIndex block) (dataEntries block))
    (then_io (padData block)
    (bind_io (\<lambda>db. (Inr (getRoot db 0), db)) (\<lambda>dataRoot.
     then_io (put 2 (toBigIntBE (slice_from dataRoot 16)) nonEmptyValue)
    (then_io (putNullifiers nonEmptyValue (nullifiers block))
     commit))))"
    by (simp add: handleNewBlock_def)
  from ok show a: "fst (putDataEntries (dataStartIndex block) (dataEntries block) db) = Inr ()"
    unfolding h by (simp add: then_io_Inr)
  from ok show b: "fst (padData block db1) = Inr ()"
    unfolding h db1_def by (simp add: then_io_Inr)
  from ok show c: "fst (put 2 (toBigIntBE (slice_from (getRoot db2 0) 16)) nonEmptyValue db2) = Inr ()"
    unfolding h db1_def db2_def by (simp add: then_io_Inr bind_io_Inr_iff)
  from ok show d: "fst (putNullifiers nonEmptyValue (nullifiers block) db3) = Inr ()"
    unfolding h db1_def db2_def db3_def by (simp add: then_io_Inr bind_io_Inr_iff)
  show "snd (handleNewBlock block db) = db4\<lparr>committed := staged db4\<rparr>"
    unfolding h
    using a b c d
    unfolding db1_def db2_def db3_def db4_def
    by (simp add: then_io_snd bind_io_snd commit_def)
qed


lemma padData_frame: "frame db (snd (padData block db))"
  by (simp add: padData_def put_frame return_io_def frame_refl)

lemma padData_staged:
  assumes "fst (padData block db) = Inr ()"
  shows "staged (snd (padData block db))
           = (if length (dataEntries block) < numDataEntries block
              then (staged db)(0 := put_leaf (staged db 0)
                      (dataStartIndex block + numDataEntries block - 1) (alloc 64))
              else staged db)"
  using assms by (auto simp: padData_def put_staged return_io_def)

text \<open>
  C4 (amended). When \<open>handleNewBlock\<close> returns, the store is committed, and its trees are
  these: the data tree holds \<open>dataEntries[i]\<close> at index \<open>dataStartIndex + i\<close> and, if
  \<open>dataEntries\<close> has fewer than \<open>numDataEntries\<close> entries, a 64-byte zero leaf at
  index \<open>dataStartIndex + numDataEntries - 1\<close>, with every other leaf as before; the
  root tree holds \<open>nonEmptyValue\<close>, 63 zero bytes and a byte 1, at the key of the low 16
  bytes of the data root after these insertions; the nullifier tree holds
  \<open>nonEmptyValue\<close> at the key of every nullifier of the block. If the block has a data
  entry or a data slot, or starts within the tree, the size of the data tree is then at
  least \<open>dataStartIndex + numDataEntries\<close>; a block with no data entry and no data slot
  leaves the size of the data tree as it was.
\<close>

theorem handleNewBlock_writes:
  assumes ok: "fst (handleNewBlock block db) = Inr ()"
  shows "committed (snd (handleNewBlock block db)) = staged (snd (handleNewBlock block db))
       \<and> leaves (staged (snd (handleNewBlock block db)) 0)
           = (\<lambda>k. if dataStartIndex block \<le> k
                      \<and> k < dataStartIndex block + length (dataEntries block)
                   then dataEntries block ! (k - dataStartIndex block)
                   else if length (dataEntries block) < numDataEntries block
                           \<and> k = dataStartIndex block + numDataEntries block - 1
                   then alloc 64
                   else leaves (staged db 0) k)
       \<and> leaves (staged (snd (handleNewBlock block db)) 2)
           = (leaves (staged db 2))
               (toBigIntBE (slice_from (getRoot (snd (handleNewBlock block db)) 0) 16)
                  := nonEmptyValue)
       \<and> leaves (staged (snd (handleNewBlock block db)) 1)
           = (\<lambda>k. if k \<in> toBigIntBE ` set (nullifiers block) then nonEmptyValue
                   else leaves (staged db 1) k)
       \<and> nonEmptyValue = replicate 63 0 @ [1]
       \<and> alloc 64 = replicate 64 0
       \<and> (0 < numDataEntries block \<or> dataEntries block \<noteq> []
              \<or> dataStartIndex block \<le> getSize db 0 \<longrightarrow>
            dataStartIndex block + numDataEntries block
              \<le> getSize (snd (handleNewBlock block db)) 0)
       \<and> (numDataEntries block = 0 \<and> dataEntries block = [] \<longrightarrow>
            getSize (snd (handleNewBlock block db)) 0 = getSize db 0)"
proof -
  define db1 where "db1 = snd (putDataEntries (dataStartIndex block) (dataEntries block) db)"
  define db2 where "db2 = snd (padData block db1)"
  define key where "key = toBigIntBE (slice_from (getRoot db2 0) 16)"
  define db3 where "db3 = snd (put 2 key nonEmptyValue db2)"
  define db4 where "db4 = snd (putNullifiers nonEmptyValue (nullifiers block) db3)"
  define db' where "db' = snd (handleNewBlock block db)"
  note steps = handleNewBlock_steps [OF ok, folded db1_def, folded db2_def, folded key_def,
      folded db3_def, folded db4_def, folded db'_def]
  have fin: "db' = db4\<lparr>committed := staged db4\<rparr>" by (rule steps(5))
  have s1: "staged db1 = (staged db)(0 :=
               \<lparr>leaves = (\<lambda>k. if dataStartIndex block \<le> k
                                  \<and> k < dataStartIndex block + length (dataEntries block)
                               then dataEntries block ! (k - dataStartIndex block)
                               else leaves (staged db 0) k),
                tree_size = (if dataEntries block = [] then tree_size (staged db 0)
                             else max (tree_size (staged db 0))
                                    (dataStartIndex block + length (dataEntries block)))\<rparr>)"
    unfolding db1_def by (rule putDataEntries_staged [OF steps(1)])
  have s2: "staged db2 = (if length (dataEntries block) < numDataEntries block
              then (staged db1)(0 := put_leaf (staged db1 0)
                      (dataStartIndex block + numDataEntries block - 1) (alloc 64))
              else staged db1)"
    unfolding db2_def by (rule padData_staged [OF steps(2)])
  have s3: "staged db3 = (staged db2)(2 := put_leaf (staged db2 2) key nonEmptyValue)"
    unfolding db3_def by (rule put_staged [OF steps(3) [unfolded db3_def]])
  obtain sz where s4: "staged db4 = (staged db3)(1 :=
               \<lparr>leaves = (\<lambda>k. if k \<in> toBigIntBE ` set (nullifiers block) then nonEmptyValue
                               else leaves (staged db3 1) k),
                tree_size = sz\<rparr>)"
    using putNullifiers_staged [OF steps(4) [unfolded db4_def]] unfolding db4_def by blast
  have "frame db db1" unfolding db1_def by (rule putDataEntries_frame)
  moreover have "frame db1 db2" unfolding db2_def by (rule padData_frame)
  ultimately have f2: "rootOf db2 = rootOf db" by (simp add: frame_def)
  have "frame db2 db3" unfolding db3_def by (rule put_frame)
  moreover have "frame db3 db4" unfolding db4_def by (rule putNullifiers_frame)
  ultimately have f4: "rootOf db4 = rootOf db2" by (simp add: frame_def)
  have t0: "staged db' 0 = staged db2 0" by (simp add: fin s4 s3)
  have root: "getRoot db' 0 = getRoot db2 0"
    by (simp add: getRoot_def t0) (simp add: fin f4)
  have c: "committed db' = staged db'" by (simp add: fin)
  have l0: "leaves (staged db' 0)
           = (\<lambda>k. if dataStartIndex block \<le> k
                      \<and> k < dataStartIndex block + length (dataEntries block)
                   then dataEntries block ! (k - dataStartIndex block)
                   else if length (dataEntries block) < numDataEntries block
                           \<and> k = dataStartIndex block + numDataEntries block - 1
                   then alloc 64
                   else leaves (staged db 0) k)"
    unfolding t0 s2 s1 by (auto simp: put_leaf_def fun_eq_iff)
  have t1: "staged db3 1 = staged db 1" by (simp add: s3 s2 s1)
  have t2: "staged db2 2 = staged db 2" by (simp add: s2 s1)
  have l2: "leaves (staged db' 2) = (leaves (staged db 2))(key := nonEmptyValue)"
    by (simp add: fin s4 s3 t2 put_leaf_def)
  have "leaves (staged db' 1)
           = (\<lambda>k. if k \<in> toBigIntBE ` set (nullifiers block) then nonEmptyValue
                   else leaves (staged db3 1) k)"
    by (simp add: fin s4)
  then have l1: "leaves (staged db' 1)
           = (\<lambda>k. if k \<in> toBigIntBE ` set (nullifiers block) then nonEmptyValue
                   else leaves (staged db 1) k)"
    by (simp only: t1)
  have sz: "dataStartIndex block + numDataEntries block \<le> getSize db' 0"
    if "0 < numDataEntries block \<or> dataEntries block \<noteq> []
          \<or> dataStartIndex block \<le> getSize db 0"
    using that unfolding getSize_def t0 s2 s1
    by (auto simp: put_leaf_def max_def)
  have sz0: "getSize db' 0 = getSize db 0"
    if "numDataEntries block = 0" "dataEntries block = []"
    using that unfolding getSize_def t0 s2 s1 by simp
  show ?thesis
    unfolding db'_def [symmetric]
    using c l0 l1 l2 sz sz0 nonEmptyValue_bytes
    by (simp add: root key_def alloc_def)
qed


lemmas io_defs = then_io_def bind_io_def return_io_def throw_io_def
lemmas store_defs = put_def get_def getHashPath_def getRoot_def getSize_def commit_def
  rollback_def valid_key_def put_leaf_def empty_tree_def

lemma toBigIntBE_single: "toBigIntBE [b] = unat b"
  by (simp add: toBigIntBE_def)

lemma last_alloc: "0 < n \<Longrightarrow> last (alloc n) = 0"
  by (simp add: alloc_def)

lemma handleNewBlock_exampleBlock: "fst (handleNewBlock exampleBlock exampleDb) = Inr ()"
  by (simp add: handleNewBlock_def padData_def exampleBlock_def exampleDb_def io_defs store_defs
        exampleRootOf_def exampleRoot_key toBigIntBE_single last_alloc)

theorem handleNewBlock_writes_witness:
  "fst (handleNewBlock exampleBlock exampleDb) = Inr ()
   \<and> 0 < numDataEntries exampleBlock
   \<and> dataStartIndex exampleBlock + numDataEntries exampleBlock = 2
   \<and> 2 \<le> getSize (snd (handleNewBlock exampleBlock exampleDb)) 0
   \<and> leaves (staged (snd (handleNewBlock exampleBlock exampleDb)) 1) 7 = nonEmptyValue"
  using handleNewBlock_writes [OF handleNewBlock_exampleBlock] handleNewBlock_exampleBlock
  by (simp add: exampleBlock_def toBigIntBE_single)

text \<open>
  C4 as stated fails for a block without data that starts beyond the end of the tree:
  nothing is written to the data tree, so its size stays 0, below
  \<open>dataStartIndex + numDataEntries = 4\<close>.
\<close>

theorem handleNewBlock_empty_block_counterexample:
  "fst (handleNewBlock emptyBlock exampleDb) = Inr ()
   \<and> dataEntries emptyBlock = []
   \<and> dataStartIndex emptyBlock + numDataEntries emptyBlock = 4
   \<and> getSize exampleDb 0 = 0
   \<and> getSize (snd (handleNewBlock emptyBlock exampleDb)) 0 = 0
   \<and> committed (snd (handleNewBlock emptyBlock exampleDb)) 0 = empty_tree"
  by (simp add: handleNewBlock_def padData_def emptyBlock_def exampleDb_def io_defs store_defs
        exampleRootOf_def exampleRoot_key toBigIntBE_single last_alloc)

lemma valid_key_frame: "frame db db' \<Longrightarrow> valid_key db' t k = valid_key db t k"
  by (simp add: frame_def valid_key_def)

lemma put_returns: "valid_key db t k \<Longrightarrow> fst (put t k v db) = Inr ()"
  by (simp add: put_def)

lemma putDataEntries_returns:
  "(\<forall>j < length entries. valid_key db 0 (index + j)) \<Longrightarrow>
     fst (putDataEntries index entries db) = Inr ()"
proof (induction entries arbitrary: index db)
  case Nil
  then show ?case by (simp add: return_io_def)
next
  case (Cons entry entries)
  have v0: "valid_key db 0 index" using Cons.prems by fastforce
  have "\<forall>j < length entries. valid_key (snd (put 0 index entry db)) 0 (index + 1 + j)"
  proof (intro allI impI)
    fix j assume "j < length entries"
    then have "valid_key db 0 (index + Suc j)" using Cons.prems by fastforce
    then show "valid_key (snd (put 0 index entry db)) 0 (index + 1 + j)"
      by (simp add: valid_key_frame [OF put_frame])
  qed
  from Cons.IH [OF this] put_returns [OF v0]
  show ?case by (simp add: then_io_Inr)
qed

lemma putNullifiers_returns:
  "(\<forall>n \<in> set ns. valid_key db 1 (toBigIntBE n)) \<Longrightarrow>
     fst (putNullifiers v ns db) = Inr ()"
proof (induction ns arbitrary: db)
  case Nil
  then show ?case by (simp add: return_io_def)
next
  case (Cons n ns)
  have v0: "valid_key db 1 (toBigIntBE n)" using Cons.prems by simp
  have "\<forall>m \<in> set ns. valid_key (snd (put 1 (toBigIntBE n) v db)) 1 (toBigIntBE m)"
    using Cons.prems by (simp add: valid_key_frame [OF put_frame])
  from Cons.IH [OF this] put_returns [OF v0]
  show ?case by (simp add: then_io_Inr)
qed

text \<open>
  \<open>handleNewBlock\<close> returns whenever the keys it writes are keys of their trees.
\<close>

lemma handleNewBlock_returns:
  assumes e: "\<forall>j < length (dataEntries block). valid_key db 0 (dataStartIndex block + j)"
    and p: "length (dataEntries block) < numDataEntries block \<longrightarrow>
           valid_key db 0 (dataStartIndex block + numDataEntries block - 1)"
    and r: "valid_key db 2
              (toBigIntBE (slice_from (rootOf db 0 (blockDataLeaves block (leaves (staged db 0)))) 16))"
    and n: "\<forall>n \<in> set (nullifiers block). valid_key db 1 (toBigIntBE n)"
  shows "fst (handleNewBlock block db) = Inr ()"
proof -
  define db1 where "db1 = snd (putDataEntries (dataStartIndex block) (dataEntries block) db)"
  define db2 where "db2 = snd (padData block db1)"
  define key where "key = toBigIntBE (slice_from (getRoot db2 0) 16)"
  define db3 where "db3 = snd (put 2 key nonEmptyValue db2)"
  have a: "fst (putDataEntries (dataStartIndex block) (dataEntries block) db) = Inr ()"
    by (rule putDataEntries_returns [OF e])
  have f1: "frame db db1" unfolding db1_def by (rule putDataEntries_frame)
  have b: "fst (padData block db1) = Inr ()"
    using p by (simp add: padData_def put_returns valid_key_frame [OF f1] return_io_def)
  have f2: "frame db db2"
    using frame_trans [OF f1] padData_frame [of db1 block] by (simp add: db2_def)
  have s1: "staged db1 = (staged db)(0 :=
               \<lparr>leaves = (\<lambda>k. if dataStartIndex block \<le> k
                                  \<and> k < dataStartIndex block + length (dataEntries block)
                               then dataEntries block ! (k - dataStartIndex block)
                               else leaves (staged db 0) k),
                tree_size = (if dataEntries block = [] then tree_size (staged db 0)
                             else max (tree_size (staged db 0))
                                    (dataStartIndex block + length (dataEntries block)))\<rparr>)"
    unfolding db1_def by (rule putDataEntries_staged [OF a])
  have s2: "staged db2 = (if length (dataEntries block) < numDataEntries block
              then (staged db1)(0 := put_leaf (staged db1 0)
                      (dataStartIndex block + numDataEntries block - 1) (alloc 64))
              else staged db1)"
    unfolding db2_def by (rule padData_staged [OF b])
  have "leaves (staged db2 0) = blockDataLeaves block (leaves (staged db 0))"
    unfolding s2 s1 by (auto simp: put_leaf_def fun_eq_iff blockDataLeaves_def)
  then have "getRoot db2 0 = rootOf db 0 (blockDataLeaves block (leaves (staged db 0)))"
    using f2 by (simp add: getRoot_def frame_def)
  then have c: "fst (put 2 key nonEmptyValue db2) = Inr ()"
    using r by (simp add: key_def put_returns valid_key_frame [OF f2])
  have f3: "frame db db3"
    using frame_trans [OF f2] put_frame [of db2 2 key nonEmptyValue] by (simp add: db3_def)
  have d: "fst (putNullifiers nonEmptyValue (nullifiers block) db3) = Inr ()"
    using n by (intro putNullifiers_returns) (simp add: valid_key_frame [OF f3])
  show ?thesis
    unfolding handleNewBlock_def
    using a b c d
    unfolding db1_def db2_def key_def db3_def
    by (simp add: then_io_Inr bind_io_Inr_iff commit_def)
qed

subsection \<open>createRollup\<close>


lemma framing_return: "framing (return_io a)"
  by (simp add: framing_def return_io_def frame_refl)

lemma framing_read: "framing (\<lambda>db. (f db, db))"
  by (simp add: framing_def frame_refl)

lemma framing_put: "framing (put t k v)"
  by (simp add: framing_def put_frame)

lemma framing_getHashPath: "framing (getHashPath t k)"
  by (simp add: framing_def getHashPath_def frame_refl)

lemma framing_bind:
  assumes "framing m" and "\<And>a. framing (f a)"
  shows "framing (bind_io m f)"
  unfolding framing_def
proof
  fix db
  show "frame db (snd (bind_io m f db))"
  proof (cases "m db")
    case (Pair r db1)
    have f1: "frame db db1" using assms(1) Pair by (auto simp: framing_def dest: spec [of _ db])
    show ?thesis
    proof (cases r)
      case (Inl e)
      with Pair f1 show ?thesis by (simp add: bind_io_def)
    next
      case (Inr a)
      have "frame db1 (snd (f a db1))" using assms(2) by (simp add: framing_def)
      with Pair Inr f1 show ?thesis by (simp add: bind_io_def frame_trans)
    qed
  qed
qed

lemma framing_then: "framing m \<Longrightarrow> framing k \<Longrightarrow> framing (then_io m k)"
  by (simp add: then_io_def framing_bind)

lemma framing_stageNullifier: "framing (stageNullifier n acc)"
  unfolding stageNullifier_def
  by (intro framing_bind framing_then framing_put framing_getHashPath framing_read framing_return)

lemma framing_stageProof: "framing (stageProof p acc)"
  unfolding stageProof_def
  by (intro framing_bind framing_then framing_put framing_getHashPath framing_read framing_return
        framing_stageNullifier)

lemma framing_stageProofs: "framing (stageProofs ps acc)"
  by (induction ps arbitrary: acc)
     (simp_all add: framing_return framing_bind framing_stageProof)

lemma getHashPath_snd: "snd (getHashPath t k db) = db"
  by (simp add: getHashPath_def)

lemma createRollup_unfold:
  "createRollup rollupSize nextRollupId ps db =
     (let start = getSize db 0 in
      case fst (getHashPath 0 start db) of
        Inl e \<Rightarrow> (Inl e, db)
      | Inr oldPath \<Rightarrow>
          (case stageProofs ps (initialStaging start) db of
             (Inl e, db1) \<Rightarrow> (Inl e, db1)
           | (Inr acc, db1) \<Rightarrow>
               (case fst (getHashPath 0 start db1) of
                  Inl e \<Rightarrow> (Inl e, db1)
                | Inr newPath \<Rightarrow>
                    (case readRollupRoot newPath start rollupSize of
                       Inl e \<Rightarrow> (Inl e, db1)
                     | Inr rRoot \<Rightarrow>
                         (Inr \<lparr>rollupId = nextRollupId, rollupDataStartIndex = start,
                               proofs = map jsProofData ps, rollupRoot = rRoot,
                               oldDataRoot = getRoot db 0, newDataRoot = getRoot db1 0,
                               oldDataPath = oldPath, newDataPath = newPath,
                               oldNullRoot = getRoot db 1, newNullRoots = accNewNullRoots acc,
                               oldNullPaths = accOldNullPaths acc,
                               newNullPaths = accNewNullPaths acc,
                               oldRootRoot = getRoot db 2,
                               oldRootPaths = accOldRootPaths acc\<rparr>,
                          db1\<lparr>staged := committed db1\<rparr>)))))"
  by (simp add: createRollup_def bind_io_def then_io_def return_io_def rollback_def
        getHashPath_def Let_def initialStaging_def split: sum.splits prod.splits)

lemma createRollup_Inr:
  assumes "fst (createRollup rollupSize nextRollupId ps db) = Inr r"
  shows "\<exists>acc. fst (stageProofs ps (initialStaging (getSize db 0)) db) = Inr acc"
    and "fst (getHashPath 0 (getSize db 0)
               (snd (stageProofs ps (initialStaging (getSize db 0)) db)))
           = Inr (newDataPath r)"
    and "readRollupRoot (newDataPath r) (getSize db 0) rollupSize = Inr (rollupRoot r)"
    and "snd (createRollup rollupSize nextRollupId ps db)
           = (snd (stageProofs ps (initialStaging (getSize db 0)) db))
               \<lparr>staged := committed (snd (stageProofs ps (initialStaging (getSize db 0)) db))\<rparr>"
    and "rollupDataStartIndex r = getSize db 0"
    and "newDataRoot r = getRoot (snd (stageProofs ps (initialStaging (getSize db 0)) db)) 0"
    and "oldDataRoot r = getRoot db 0"
  using assms unfolding createRollup_unfold Let_def
  by (auto split: sum.splits prod.splits)


lemma stageNullifier_unfold:
  "stageNullifier n acc db =
     (if valid_key db 1 n
      then (Inr (acc\<lparr>accOldNullPaths := accOldNullPaths acc
                          @ [pathOf db 1 (leaves (staged db 1)) n],
                      accNewNullRoots := accNewNullRoots acc
                          @ [rootOf db 1 ((leaves (staged db 1))(n := toBufferBE 1 64))],
                      accNewNullPaths := accNewNullPaths acc
                          @ [pathOf db 1 ((leaves (staged db 1))(n := toBufferBE 1 64)) n]\<rparr>),
            db\<lparr>staged := (staged db)(1 := put_leaf (staged db 1) n (toBufferBE 1 64))\<rparr>)
      else (Inl StateIoError, db))"
  by (simp add: stageNullifier_def bind_io_def then_io_def return_io_def getHashPath_def
        put_def getRoot_def valid_key_def put_leaf_def)

lemma stageNullifier_Inr:
  assumes "stageNullifier n acc db = (Inr acc', db')"
  shows "staged db' 0 = staged db 0" and "nextDataIndex acc' = nextDataIndex acc"
  using assms by (auto simp: stageNullifier_unfold split: if_splits)

lemma stageProof_Inr:
  assumes "stageProof p acc db = (Inr acc', db')"
  shows "staged db' 0
           = put_leaf (put_leaf (staged db 0) (nextDataIndex acc) (newNote1 p))
               (nextDataIndex acc + 1) (newNote2 p)"
    and "nextDataIndex acc' = nextDataIndex acc + 2"
proof -
  let ?db1 = "snd (put 0 (nextDataIndex acc) (newNote1 p) db)"
  let ?db2 = "snd (put 0 (nextDataIndex acc + 1) (newNote2 p) ?db1)"
  let ?acc0 = "acc\<lparr>nextDataIndex := nextDataIndex acc + 2\<rparr>"
  from assms have ok: "fst (stageProof p acc db) = Inr acc'" by simp
  then have p1: "fst (put 0 (nextDataIndex acc) (newNote1 p) db) = Inr ()"
    unfolding stageProof_def by (simp add: then_io_Inr)
  from ok have p2: "fst (put 0 (nextDataIndex acc + 1) (newNote2 p) ?db1) = Inr ()"
    unfolding stageProof_def by (simp add: then_io_Inr)
  have s2: "staged ?db2 0
           = put_leaf (put_leaf (staged db 0) (nextDataIndex acc) (newNote1 p))
               (nextDataIndex acc + 1) (newNote2 p)"
  proof -
    have a: "staged ?db1 0 = put_leaf (staged db 0) (nextDataIndex acc) (newNote1 p)"
      using put_staged [OF p1] by (simp only: fun_upd_same)
    have "staged ?db2 0 = put_leaf (staged ?db1 0) (nextDataIndex acc + 1) (newNote2 p)"
      using put_staged [OF p2] by (simp only: fun_upd_same)
    then show ?thesis by (simp only: a)
  qed
  from assms have rest:
    "bind_io (stageNullifier (nullifier1 p) ?acc0) (\<lambda>acc1.
       bind_io (stageNullifier (nullifier2 p) acc1) (\<lambda>acc2.
       bind_io (getHashPath 2 (toBigIntBE (slice_from (noteTreeRoot p) 16))) (\<lambda>rootPath.
       return_io (acc2\<lparr>accOldRootPaths := accOldRootPaths acc2 @ [rootPath]\<rparr>)))) ?db2
     = (Inr acc', db')"
    unfolding stageProof_def
    using p1 p2
    by (cases "put 0 (nextDataIndex acc) (newNote1 p) db";
        cases "put 0 (nextDataIndex acc + 1) (newNote2 p) ?db1")
       (simp add: then_io_def bind_io_def)
  then obtain acc1 d1 acc2 d2 where
    n1: "stageNullifier (nullifier1 p) ?acc0 ?db2 = (Inr acc1, d1)"
    and n2: "stageNullifier (nullifier2 p) acc1 d1 = (Inr acc2, d2)"
    and fin: "db' = d2" "nextDataIndex acc' = nextDataIndex acc2"
    by (auto simp: bind_io_def return_io_def getHashPath_def split: sum.splits prod.splits if_splits)
  show "staged db' 0
           = put_leaf (put_leaf (staged db 0) (nextDataIndex acc) (newNote1 p))
               (nextDataIndex acc + 1) (newNote2 p)"
    using stageNullifier_Inr(1) [OF n1] stageNullifier_Inr(1) [OF n2] fin s2 by simp
  show "nextDataIndex acc' = nextDataIndex acc + 2"
    using stageNullifier_Inr(2) [OF n1] stageNullifier_Inr(2) [OF n2] fin by simp
qed

lemma length_newNotes: "length (newNotes ps) = 2 * length ps"
  by (induction ps) (simp_all add: newNotes_def)

lemma stageProofs_leaves:
  assumes "stageProofs ps acc db = (Inr acc', db')"
  shows "leaves (staged db' 0) = insertNotes (leaves (staged db 0)) (nextDataIndex acc) (newNotes ps)"
  using assms
proof (induction ps arbitrary: acc db)
  case Nil
  then show ?case by (auto simp: return_io_def insertNotes_def newNotes_def fun_eq_iff)
next
  case (Cons p ps)
  from Cons.prems obtain acc1 db1 where
    p: "stageProof p acc db = (Inr acc1, db1)"
    and r: "stageProofs ps acc1 db1 = (Inr acc', db')"
    by (auto simp: bind_io_def split: sum.splits prod.splits)
  have "leaves (staged db' 0)
          = insertNotes (leaves (staged db1 0)) (nextDataIndex acc + 2) (newNotes ps)"
    using Cons.IH [OF r] stageProof_Inr(2) [OF p] by simp
  also have "\<dots> = insertNotes (leaves (staged db 0)) (nextDataIndex acc) (newNotes (p # ps))"
    unfolding stageProof_Inr(1) [OF p]
    by (auto simp: insertNotes_def put_leaf_def fun_eq_iff newNotes_def nth_Cons' nth_append)
  finally show ?case .
qed




lemma log2_exact_power: "log2_exact (2 ^ k) = Some k"
proof (induction k)
  case 0
  then show ?case by (simp add: log2_exact.simps)
next
  case (Suc k)
  have "log2_exact (2 ^ Suc k) = map_option Suc (log2_exact (2 ^ Suc k div 2))"
    by (subst log2_exact.simps) simp
  then show ?case using Suc by simp
qed

lemma rootIndex_multiple:
  "0 < rollupSize \<Longrightarrow> (rollupSize * 2) dvd start \<Longrightarrow>
     rootIndex start rollupSize = Some ((start div (rollupSize * 2)) mod 2)"
  by (simp add: rootIndex_def)

text \<open>
  C1. When \<open>createRollup\<close> returns, the store is the store it started from with the
  staged trees reset to the committed ones: every \<open>put\<close> of the construction is
  discarded. For a store with no mutation staged on entry, the state in which the state
  queue leaves it between two items, the store is exactly as before, and so are the size
  and the root of every tree; what the call produces is the \<open>Rollup\<close> it returns.
\<close>

theorem createRollup_leaves_store_unchanged:
  assumes ok: "fst (createRollup rollupSize nextRollupId ps db) = Inr r"
  shows "snd (createRollup rollupSize nextRollupId ps db) = db\<lparr>staged := committed db\<rparr>
       \<and> (clean db \<longrightarrow>
            snd (createRollup rollupSize nextRollupId ps db) = db
            \<and> (\<forall>t. getSize (snd (createRollup rollupSize nextRollupId ps db)) t = getSize db t
                  \<and> getRoot (snd (createRollup rollupSize nextRollupId ps db)) t = getRoot db t))"
proof -
  let ?db1 = "snd (stageProofs ps (initialStaging (getSize db 0)) db)"
  have f: "frame db ?db1" using framing_stageProofs by (simp add: framing_def)
  have "snd (createRollup rollupSize nextRollupId ps db) = ?db1\<lparr>staged := committed ?db1\<rparr>"
    by (rule createRollup_Inr(4) [OF ok])
  also have "\<dots> = db\<lparr>staged := committed db\<rparr>"
    using f by (intro WorldStateDb.equality) (simp_all add: frame_def)
  finally have a: "snd (createRollup rollupSize nextRollupId ps db) = db\<lparr>staged := committed db\<rparr>" .
  have "db\<lparr>staged := committed db\<rparr> = db" if "clean db"
    using that by (intro WorldStateDb.equality) (simp_all add: clean_def)
  with a show ?thesis by simp
qed

text \<open>
  C9. When \<open>rollupSize\<close> is \<open>2^k\<close> and the size of the data tree on entry,
  \<open>dataStartIndex\<close>, is a multiple of \<open>2 * rollupSize\<close>, the \<open>rollupRoot\<close> of the
  rollup that \<open>createRollup\<close> returns is the entry
  \<open>(dataStartIndex / (2 * rollupSize)) mod 2\<close> of level \<open>k + 1\<close> of \<open>newDataPath\<close>,
  and \<open>newDataPath\<close> is the hash path of index \<open>dataStartIndex\<close> in the data tree
  with the new notes of the batch inserted from \<open>dataStartIndex\<close> on.
\<close>

theorem createRollup_rollupRoot:
  assumes ok: "fst (createRollup rollupSize nextRollupId ps db) = Inr r"
    and pow: "rollupSize = 2 ^ k"
    and mult: "(2 * rollupSize) dvd getSize db 0"
  shows "newDataPath r
           = pathOf db 0 (insertNotes (leaves (staged db 0)) (getSize db 0) (newNotes ps))
               (getSize db 0)
       \<and> k + 1 < length (newDataPath r)
       \<and> rollupRoot r
           = at_index (newDataPath r ! (k + 1)) ((getSize db 0 div (2 * rollupSize)) mod 2)"
proof -
  let ?start = "getSize db 0"
  obtain acc db1 where st: "stageProofs ps (initialStaging ?start) db = (Inr acc, db1)"
    using createRollup_Inr(1) [OF ok]
    by (cases "stageProofs ps (initialStaging ?start) db") auto
  have f: "frame db db1"
    using framing_stageProofs [of ps "initialStaging ?start"] st
    by (auto simp: framing_def dest: spec [of _ db])
  have lv: "leaves (staged db1 0) = insertNotes (leaves (staged db 0)) ?start (newNotes ps)"
    using stageProofs_leaves [OF st] by (simp add: initialStaging_def)
  have "fst (getHashPath 0 ?start db1) = Inr (newDataPath r)"
    using createRollup_Inr(2) [OF ok] st by simp
  then have path: "newDataPath r = pathOf db 0 (leaves (staged db1 0)) ?start"
    using f by (auto simp: getHashPath_def frame_def split: if_splits)
  have rr: "readRollupRoot (newDataPath r) ?start rollupSize = Inr (rollupRoot r)"
    by (rule createRollup_Inr(3) [OF ok])
  have pos: "0 < rollupSize" using pow by simp
  have idx: "rootIndex ?start rollupSize = Some ((?start div (2 * rollupSize)) mod 2)"
    using rootIndex_multiple [OF pos, of ?start] mult by (simp add: mult.commute)
  have l: "log2_exact rollupSize = Some k" by (simp add: pow log2_exact_power)
  from rr have "k + 1 < length (newDataPath r)
       \<and> rollupRoot r
           = at_index (newDataPath r ! (k + 1)) ((?start div (2 * rollupSize)) mod 2)"
    unfolding readRollupRoot_def l idx
    by (auto simp: at_index_def split: option.splits if_splits)
  with path lv show ?thesis by simp
qed


lemma stageProofs_example:
  "\<exists>acc db1. stageProofs [exampleProof [1, 2, 3] [[4], [5]]] (initialStaging 0) exampleDb
      = (Inr acc, db1)"
  by (simp add: stageProof_def stageNullifier_unfold initialStaging_def exampleProof_def
        exampleDb_def io_defs store_defs exampleRoot_key)

lemma createRollup_example:
  "\<exists>r. fst (createRollup 1 0 [exampleProof [1, 2, 3] [[4], [5]]] exampleDb) = Inr r"
proof -
  have start: "getSize exampleDb 0 = 0"
    by (simp add: getSize_def exampleDb_def empty_tree_def)
  from stageProofs_example obtain acc db1 where
    st: "stageProofs [exampleProof [1, 2, 3] [[4], [5]]] (initialStaging 0) exampleDb = (Inr acc, db1)"
    by blast
  have f: "frame exampleDb db1"
    using framing_stageProofs [of "[exampleProof [1, 2, 3] [[4], [5]]]" "initialStaging 0"] st
    by (auto simp: framing_def dest: spec [of _ exampleDb])
  then have d: "depth db1 = (\<lambda>_. 8)" "pathOf db1 = examplePathOf"
    by (simp_all add: frame_def exampleDb_def)
  have l: "log2_exact (Suc 0) = Some 0" by (simp add: log2_exact.simps)
  show ?thesis
    unfolding createRollup_unfold Let_def start st
    by (simp add: getHashPath_def valid_key_def d exampleDb_def readRollupRoot_def l
          examplePathOf_def at_index_def rootIndex_def)
qed


lemma exampleDb_start: "getSize exampleDb 0 = 0"
  by (simp add: getSize_def exampleDb_def empty_tree_def)

theorem createRollup_leaves_store_unchanged_witness:
  "clean exampleDb
   \<and> (\<exists>r. fst (createRollup 1 0 [exampleProof [1, 2, 3] [[4], [5]]] exampleDb) = Inr r)
   \<and> snd (createRollup 1 0 [exampleProof [1, 2, 3] [[4], [5]]] exampleDb) = exampleDb"
proof -
  from createRollup_example obtain r where
    r: "fst (createRollup 1 0 [exampleProof [1, 2, 3] [[4], [5]]] exampleDb) = Inr r" by blast
  have c: "clean exampleDb" by (simp add: clean_def exampleDb_def)
  from createRollup_leaves_store_unchanged [OF r] c
  have "snd (createRollup 1 0 [exampleProof [1, 2, 3] [[4], [5]]] exampleDb) = exampleDb"
    by blast
  with c r show ?thesis by blast
qed

theorem createRollup_rollupRoot_witness:
  "(1 :: nat) = 2 ^ 0
   \<and> (2 * 1) dvd getSize exampleDb 0
   \<and> (\<exists>r. fst (createRollup 1 0 [exampleProof [1, 2, 3] [[4], [5]]] exampleDb) = Inr r
          \<and> rollupRoot r = Some ((alloc 63 @ [1]) @ (alloc 63 @ [1])))"
proof -
  from createRollup_example obtain r where
    r: "fst (createRollup 1 0 [exampleProof [1, 2, 3] [[4], [5]]] exampleDb) = Inr r" by blast
  have pow: "(1 :: nat) = 2 ^ 0" by simp
  have mult: "(2 * 1) dvd getSize exampleDb 0" by (simp add: exampleDb_start)
  note t = createRollup_rollupRoot [OF r pow mult]
  have path: "newDataPath r
        = examplePathOf 0
            (insertNotes (leaves empty_tree) 0 [alloc 63 @ [1], alloc 63 @ [1]]) 0"
    using t by (simp add: exampleDb_start) (simp add: exampleDb_def newNotes_def exampleProof_def)
  have "rollupRoot r = at_index (newDataPath r ! (0 + 1)) ((getSize exampleDb 0 div (2 * 1)) mod 2)"
    using t by blast
  then have "rollupRoot r = Some ((alloc 63 @ [1]) @ (alloc 63 @ [1]))"
    unfolding path by (simp add: exampleDb_start examplePathOf_def at_index_def insertNotes_def)
  with r pow mult show ?thesis by blast
qed

lemma stageProof_returns:
  assumes "valid_key db 0 (nextDataIndex acc)" and "valid_key db 0 (nextDataIndex acc + 1)"
    and "valid_key db 1 (nullifier1 p)" and "valid_key db 1 (nullifier2 p)"
    and "valid_key db 2 (toBigIntBE (slice_from (noteTreeRoot p) 16))"
  shows "\<exists>acc' db'. stageProof p acc db = (Inr acc', db')"
  using assms
  by (simp add: stageProof_def then_io_def bind_io_def put_def stageNullifier_unfold
        getHashPath_def return_io_def valid_key_def)

lemma stageProofs_returns:
  assumes "\<forall>j < 2 * length ps. valid_key db 0 (nextDataIndex acc + j)"
    and "\<forall>p \<in> set ps. valid_key db 1 (nullifier1 p) \<and> valid_key db 1 (nullifier2 p)
           \<and> valid_key db 2 (toBigIntBE (slice_from (noteTreeRoot p) 16))"
  shows "\<exists>acc' db'. stageProofs ps acc db = (Inr acc', db')"
  using assms
proof (induction ps arbitrary: acc db)
  case Nil
  then show ?case by (simp add: return_io_def)
next
  case (Cons p ps)
  have v0: "valid_key db 0 (nextDataIndex acc)"
    using Cons.prems(1) [rule_format, of 0] by simp
  have v1: "valid_key db 0 (nextDataIndex acc + 1)"
    using Cons.prems(1) [rule_format, of 1] by simp
  from stageProof_returns [OF v0 v1] Cons.prems(2)
  obtain acc1 db1 where s: "stageProof p acc db = (Inr acc1, db1)" by fastforce
  have f: "frame db db1"
    using framing_stageProof [of p acc] s by (auto simp: framing_def dest: spec [of _ db])
  have i: "nextDataIndex acc1 = nextDataIndex acc + 2" by (rule stageProof_Inr(2) [OF s])
  have a: "\<forall>j < 2 * length ps. valid_key db1 0 (nextDataIndex acc1 + j)"
  proof (intro allI impI)
    fix j assume "j < 2 * length ps"
    then have "valid_key db 0 (nextDataIndex acc + (j + 2))"
      using Cons.prems(1) [rule_format, of "j + 2"] by simp
    then show "valid_key db1 0 (nextDataIndex acc1 + j)"
      by (simp add: valid_key_frame [OF f] i add.commute add.left_commute)
  qed
  have b: "\<forall>p \<in> set ps. valid_key db1 1 (nullifier1 p) \<and> valid_key db1 1 (nullifier2 p)
           \<and> valid_key db1 2 (toBigIntBE (slice_from (noteTreeRoot p) 16))"
    using Cons.prems(2) by (simp add: valid_key_frame [OF f])
  from Cons.IH [OF a b] s show ?case by (simp add: bind_io_def)
qed

text \<open>
  \<open>createRollup\<close> returns whenever the keys it reads and writes are keys of their
  trees, \<open>rollupSize\<close> is a power of two and the new data path has the level of the
  rollup root.
\<close>

lemma createRollup_returns:
  assumes v: "valid_key db 0 (getSize db 0)"
    and nts: "\<forall>j < 2 * length ps. valid_key db 0 (getSize db 0 + j)"
    and nulls: "\<forall>p \<in> set ps. valid_key db 1 (nullifier1 p) \<and> valid_key db 1 (nullifier2 p)
           \<and> valid_key db 2 (toBigIntBE (slice_from (noteTreeRoot p) 16))"
    and lg: "log2_exact rollupSize = Some l"
    and lvl: "l + 1 < length (pathOf db 0
                (insertNotes (leaves (staged db 0)) (getSize db 0) (newNotes ps)) (getSize db 0))"
  shows "\<exists>r. fst (createRollup rollupSize nextRollupId ps db) = Inr r"
proof -
  let ?start = "getSize db 0"
  from stageProofs_returns [of ps db "initialStaging ?start"] nts nulls
  obtain acc db1 where st: "stageProofs ps (initialStaging ?start) db = (Inr acc, db1)"
    by (auto simp: initialStaging_def)
  have f: "frame db db1"
    using framing_stageProofs [of ps "initialStaging ?start"] st
    by (auto simp: framing_def dest: spec [of _ db])
  have lv: "leaves (staged db1 0) = insertNotes (leaves (staged db 0)) ?start (newNotes ps)"
    using stageProofs_leaves [OF st] by (simp add: initialStaging_def)
  have p1: "pathOf db1 = pathOf db" using f by (simp add: frame_def)
  have v1: "valid_key db1 0 ?start" using v by (simp add: valid_key_frame [OF f])
  show ?thesis
    unfolding createRollup_unfold Let_def st
    using v v1 lvl
    by (simp add: getHashPath_def readRollupRoot_def lg at_index_def lv p1)
qed

section \<open>Contracts: proofs\<close>


lemma queryFilter_empty_iff:
  "queryFilter eventLog (Some rid) None = []
     \<longleftrightarrow> (\<forall>e \<in> set eventLog. \<not> (eventName e = RollupProcessed \<and> eventRollupId e = rid))"
  by (auto simp: queryFilter_def filter_empty_conv)

lemma queryFilter_hd:
  assumes "queryFilter eventLog (Some rid) None = ev # rest"
  shows "ev \<in> set eventLog \<and> eventName ev = RollupProcessed \<and> eventRollupId ev = rid"
proof -
  have "ev \<in> set (queryFilter eventLog (Some rid) None)" using assms by simp
  then show ?thesis by (auto simp: queryFilter_def)
qed

text \<open>
  C10. \<open>getRollupBlocksFrom\<close> returns the empty list when the log has no
  \<open>RollupProcessed\<close> event tagged with the rollup id. Otherwise, with \<open>ev\<close> the first
  such event, it returns the decoded transactions of the \<open>RollupProcessed\<close> events in
  blocks at or after the block of \<open>ev\<close> whose transaction has at least
  \<open>minConfirmations\<close> confirmations, in log order: every returned block is decoded from
  such a transaction, and a transaction with fewer confirmations is left out, with no
  error.
\<close>

theorem getRollupBlocksFrom_blocks:
  "((\<forall>e \<in> set eventLog. \<not> (eventName e = RollupProcessed \<and> eventRollupId e = rid)) \<longrightarrow>
      getRollupBlocksFrom idOf sizeOf eventLog rid minConfirmations = [])
   \<and> (queryFilter eventLog (Some rid) None = ev # rest \<longrightarrow>
        ev \<in> set eventLog \<and> eventName ev = RollupProcessed \<and> eventRollupId ev = rid
      \<and> getRollupBlocksFrom idOf sizeOf eventLog rid minConfirmations
          = map (decodeBlock idOf sizeOf)
              (filter (\<lambda>tx. minConfirmations \<le> confirmations tx)
                 (map getTransaction
                    (filter (\<lambda>e. eventName e = RollupProcessed \<and> blockNumber ev \<le> blockNumber e)
                       eventLog)))
      \<and> (\<forall>b \<in> set (getRollupBlocksFrom idOf sizeOf eventLog rid minConfirmations).
            \<exists>e \<in> set eventLog.
              eventName e = RollupProcessed \<and> blockNumber ev \<le> blockNumber e
              \<and> minConfirmations \<le> confirmations (getTransaction e)
              \<and> b = decodeBlock idOf sizeOf (getTransaction e)))"
proof -
  have none: "getRollupBlocksFrom idOf sizeOf eventLog rid minConfirmations = []"
    if "\<forall>e \<in> set eventLog. \<not> (eventName e = RollupProcessed \<and> eventRollupId e = rid)"
    using that queryFilter_empty_iff [of eventLog rid]
    by (simp add: getRollupBlocksFrom_def)
  have eq: "getRollupBlocksFrom idOf sizeOf eventLog rid minConfirmations
          = map (decodeBlock idOf sizeOf)
              (filter (\<lambda>tx. minConfirmations \<le> confirmations tx)
                 (map getTransaction
                    (filter (\<lambda>e. eventName e = RollupProcessed \<and> blockNumber ev \<le> blockNumber e)
                       eventLog)))"
    if "queryFilter eventLog (Some rid) None = ev # rest"
    using that by (simp add: getRollupBlocksFrom_def queryFilter_def)
  have mem: "\<exists>e \<in> set eventLog.
              eventName e = RollupProcessed \<and> blockNumber ev \<le> blockNumber e
              \<and> minConfirmations \<le> confirmations (getTransaction e)
              \<and> b = decodeBlock idOf sizeOf (getTransaction e)"
    if "queryFilter eventLog (Some rid) None = ev # rest"
      and "b \<in> set (getRollupBlocksFrom idOf sizeOf eventLog rid minConfirmations)" for b
    using that(2) unfolding eq [OF that(1)] by auto
  show ?thesis using none eq mem queryFilter_hd by blast
qed



theorem getRollupBlocksFrom_blocks_witness:
  "queryFilter exampleLog (Some 1) None = [exampleEvent RollupProcessed 1 12 7]
   \<and> getRollupBlocksFrom length length exampleLog 1 3
       = [decodeBlock length length (getTransaction (exampleEvent RollupProcessed 1 12 7))]
   \<and> queryFilter exampleLog (Some 7) None = []
   \<and> getRollupBlocksFrom length length exampleLog 7 3 = []"
proof -
  have h: "queryFilter exampleLog (Some 1) None = [exampleEvent RollupProcessed 1 12 7]"
    by (simp add: exampleLog_def queryFilter_def exampleEvent_def)
  from getRollupBlocksFrom_blocks
         [of exampleLog 1 length length 3 "exampleEvent RollupProcessed 1 12 7" "[]",
          THEN conjunct2, THEN mp, OF h]
  have "getRollupBlocksFrom length length exampleLog 1 3
          = map (decodeBlock length length)
              (filter (\<lambda>tx. 3 \<le> confirmations tx)
                 (map getTransaction
                    (filter (\<lambda>e. eventName e = RollupProcessed
                                \<and> blockNumber (exampleEvent RollupProcessed 1 12 7) \<le> blockNumber e)
                       exampleLog)))"
    by (elim conjE)
  also have "\<dots> = [decodeBlock length length (getTransaction (exampleEvent RollupProcessed 1 12 7))]"
    by (simp add: exampleLog_def exampleEvent_def)
  finally have one: "getRollupBlocksFrom length length exampleLog 1 3
       = [decodeBlock length length (getTransaction (exampleEvent RollupProcessed 1 12 7))]" .
  have e: "queryFilter exampleLog (Some 7) None = []"
    by (simp add: exampleLog_def queryFilter_def exampleEvent_def)
  have "\<forall>e \<in> set exampleLog. \<not> (eventName e = RollupProcessed \<and> eventRollupId e = 7)"
    by (simp add: exampleLog_def exampleEvent_def)
  with getRollupBlocksFrom_blocks [of exampleLog 7 length length 3, THEN conjunct1]
  have none: "getRollupBlocksFrom length length exampleLog 7 3 = []" by blast
  show ?thesis using h one e none by simp
qed

end
